theory Spec2Isabelle
  imports Complex_Main "HOL-Library.Word"
begin

unbundle bit_operations_syntax

section \<open>Data model of cache.c\<close>

type_synonym byte = "8 word"
type_synonym uint32 = "32 word"
type_synonym uint64 = "64 word"

text \<open>
  Modelled from the spec: the header tai.h is not part of the sources.  A \<open>struct tai\<close>
  is a label for a whole second, held in one 64-bit unsigned field; a \<open>struct taia\<close>
  is an instant of the same time source with sub-second precision, taken here as a real
  number of seconds.  The value of a C \<open>double\<close> is a real number; the rounding of
  its arithmetic is \<open>round_double\<close> below.
\<close>

type_synonym tai = uint64
type_synonym taia = real

text \<open>
  Modelled from the spec: the header cache.h is not part of the sources.  The cycle
  statistics are the four counters \<open>{count, total, min, max}\<close>; the options are
  \<open>{allow_resize, target_cycle_time, resize_callback}\<close>, the callback taking
  \<open>(ratio, oldsize, newsize, ttl_stats, proposed)\<close> and returning the decision.
\<close>

record ttl_stats =
  count_ttl :: uint32
  total_ttl :: uint64
  max_ttl :: uint32
  min_ttl :: uint32

record cache_options =
  allow_resize :: bool
  target_cycle_time :: uint32
  resize_callback :: "(real \<Rightarrow> uint32 \<Rightarrow> uint32 \<Rightarrow> ttl_stats \<Rightarrow> bool \<Rightarrow> bool) option"

text \<open>
  \<open>struct cache\<close>.  The pointer \<open>x\<close> is \<open>None\<close> when null and otherwise the block it
  points to, a byte list as long as the block that was allocated.  The field \<open>size\<close> is
  called \<open>size_c\<close> here; the nested \<open>cycle\<close> struct is flattened into three fields.
\<close>

record cache =
  x :: "byte list option"
  size_c :: uint32
  hsize :: uint32
  writer :: uint32
  oldest :: uint32
  unused :: uint32
  cache_motion :: uint64
  cycle_start :: taia
  cycle_last_ratio :: real
  cycle_ttl :: ttl_stats
  options :: cache_options

text \<open>
  The two ways an operation can end without returning: \<open>cache_impossible\<close> leaves the
  process with exit code 111; an access through a null pointer or outside the allocated
  block has no defined behaviour in C and is a \<open>Memory_fault\<close> here.
\<close>

datatype fault = Exit111 | Memory_fault

definition MAXKEYLEN :: nat where "MAXKEYLEN = 1000"
definition MAXDATALEN :: nat where "MAXDATALEN = 1000000"
definition MAXCACHESIZE :: uint32 where "MAXCACHESIZE = 1000000000"
definition MINCACHESIZE :: uint32 where "MINCACHESIZE = 100"
definition DEFAULT_TARGET_CYCLETIME :: uint32 where "DEFAULT_TARGET_CYCLETIME = 86400"

section \<open>Bytes in the arena\<close>

text \<open>\<open>load a p n\<close> are the \<open>n\<close> bytes at offset \<open>p\<close>; \<open>store a p bs\<close> overwrites
  the bytes at offset \<open>p\<close> with \<open>bs\<close> (inside the block: the callers check).\<close>

definition load :: "byte list \<Rightarrow> nat \<Rightarrow> nat \<Rightarrow> byte list" where
  "load a p n = take n (drop p a)"

definition store :: "byte list \<Rightarrow> nat \<Rightarrow> byte list \<Rightarrow> byte list" where
  "store a p bs = take p a @ bs @ drop (p + length bs) a"

text \<open>
  Modelled from the spec: uint32_pack and uint32_unpack are not part of the sources.
  All integers in the arena are little-endian and of fixed width.
\<close>

definition uint32_pack :: "uint32 \<Rightarrow> byte list" where
  "uint32_pack u = [ucast u, ucast (drop_bit 8 u), ucast (drop_bit 16 u), ucast (drop_bit 24 u)]"

definition uint32_unpack :: "byte list \<Rightarrow> uint32" where
  "uint32_unpack s =
     ucast (s ! 0) OR push_bit 8 (ucast (s ! 1)) OR push_bit 16 (ucast (s ! 2))
     OR push_bit 24 (ucast (s ! 3))"

text \<open>
  Modelled from the spec: tai_pack and tai_unpack are not part of the sources.  An instant
  takes 8 bytes and packing followed by unpacking gives the instant back; the byte order
  chosen here is big-endian.
\<close>

definition tai_pack :: "tai \<Rightarrow> byte list" where
  "tai_pack t = [ucast (drop_bit 56 t), ucast (drop_bit 48 t), ucast (drop_bit 40 t),
                 ucast (drop_bit 32 t), ucast (drop_bit 24 t), ucast (drop_bit 16 t),
                 ucast (drop_bit 8 t), ucast t]"

definition tai_unpack :: "byte list \<Rightarrow> tai" where
  "tai_unpack s =
     push_bit 56 (ucast (s ! 0)) OR push_bit 48 (ucast (s ! 1)) OR push_bit 40 (ucast (s ! 2))
     OR push_bit 32 (ucast (s ! 3)) OR push_bit 24 (ucast (s ! 4)) OR push_bit 16 (ucast (s ! 5))
     OR push_bit 8 (ucast (s ! 6)) OR ucast (s ! 7)"

text \<open>
  Modelled from the spec: the arithmetic of tai.h (\<open>tai_uint\<close>, \<open>tai_add\<close>, \<open>tai_sub\<close>,
  \<open>tai_less\<close>, \<open>tai_approx\<close>) on the 64-bit label, and of taia.h on instants.
  \<open>tai_approx\<close> converts the label to a \<open>double\<close>, which is exact below \<open>2 ^ 53\<close>;
  its only use, in \<open>cache_t_get\<close>, replaces every value above 604800 by 604800.
\<close>

definition tai_uint :: "uint32 \<Rightarrow> tai" where "tai_uint u = ucast u"
definition tai_add :: "tai \<Rightarrow> tai \<Rightarrow> tai" where "tai_add u v = u + v"
definition tai_sub :: "tai \<Rightarrow> tai \<Rightarrow> tai" where "tai_sub u v = u - v"
definition tai_less :: "tai \<Rightarrow> tai \<Rightarrow> bool" where "tai_less t u = (t < u)"
definition tai_approx :: "tai \<Rightarrow> real" where "tai_approx t = real (unat t)"
definition taia_sub :: "taia \<Rightarrow> taia \<Rightarrow> taia" where "taia_sub u v = u - v"
definition taia_approx :: "taia \<Rightarrow> real" where "taia_approx t = t"

text \<open>\<open>set4\<close> and \<open>get4\<close>: the bounds check against \<open>size - 4\<close> (in 32-bit arithmetic),
  then the access through \<open>c->x + pos\<close>.\<close>

definition set4 :: "cache \<Rightarrow> uint32 \<Rightarrow> uint32 \<Rightarrow> fault + cache" where
  "set4 c pos u =
     (if pos > size_c c - 4 then Inl Exit111
      else case x c of
        None \<Rightarrow> Inl Memory_fault
      | Some a \<Rightarrow>
          if unat pos + 4 > length a then Inl Memory_fault
          else Inr (c\<lparr>x := Some (store a (unat pos) (uint32_pack u))\<rparr>))"

definition get4 :: "cache \<Rightarrow> uint32 \<Rightarrow> fault + uint32" where
  "get4 c pos =
     (if pos > size_c c - 4 then Inl Exit111
      else case x c of
        None \<Rightarrow> Inl Memory_fault
      | Some a \<Rightarrow>
          if unat pos + 4 > length a then Inl Memory_fault
          else Inr (uint32_unpack (load a (unat pos) 4)))"

section \<open>The hash function\<close>

text \<open>The loop of \<open>hash\<close> over the \<open>keylen\<close> bytes of the key, then the shift and
  the mask.  The pair \<open>(key, keylen)\<close> of the source is one byte list, \<open>keylen\<close> being
  its length.\<close>

primrec hash_loop :: "uint32 \<Rightarrow> byte list \<Rightarrow> uint32" where
  "hash_loop result [] = result"
| "hash_loop result (b # key) = hash_loop ((push_bit 5 result + result) XOR ucast b) key"

definition hash :: "cache \<Rightarrow> byte list \<Rightarrow> uint32" where
  "hash c key = push_bit 2 (hash_loop 5381 key) AND (hsize c - 4)"

section \<open>Initialisation\<close>

text \<open>
  Modelled from the spec: alloc.h is not part of the sources.  \<open>alloc n\<close> either fails
  (a null pointer) or returns a block of \<open>n\<close> bytes whose content is not initialised.
  The outcome of one call is the parameter \<open>heap\<close>: \<open>None\<close> for the failure, \<open>Some g\<close>
  for a block whose byte at offset \<open>i\<close> is \<open>g i\<close>.
\<close>

definition alloc :: "(nat \<Rightarrow> byte) option \<Rightarrow> nat \<Rightarrow> byte list option" where
  "alloc heap n = (case heap of None \<Rightarrow> None | Some g \<Rightarrow> Some (map g [0..<n]))"

text \<open>The loop \<open>while (c->hsize <= (c->size >> 5)) c->hsize <<= 1\<close>.  In 32-bit
  arithmetic it does not end once \<open>hsize\<close> has become 0.\<close>

partial_function (option) hsize_loop :: "uint32 \<Rightarrow> uint32 \<Rightarrow> uint32 option" where
  "hsize_loop h s = (if h \<le> drop_bit 5 s then hsize_loop (push_bit 1 h) s else Some h)"

text \<open>The two clamping statements \<open>if (cachesize > MAXCACHESIZE) ...; if (cachesize <
  MINCACHESIZE) ...\<close>, which \<open>init\<close> and \<open>should_resize\<close> both perform.\<close>

declare hsize_loop.simps [code]

definition clamp_size :: "uint32 \<Rightarrow> uint32" where
  "clamp_size cachesize =
     (let cs = (if cachesize > MAXCACHESIZE then MAXCACHESIZE else cachesize)
      in if cs < MINCACHESIZE then MINCACHESIZE else cs)"

text \<open>
  \<open>init\<close>.  \<open>heap\<close> is the outcome of its call of \<open>alloc\<close>, \<open>now\<close> the reading of
  \<open>taia_now\<close>.  The result is \<open>None\<close> when the loop for \<open>hsize\<close> does not end, and
  otherwise a fault or the returned flag with the cache as \<open>init\<close> leaves it.
  \<open>byte_zero (c->x, c->size)\<close> writes \<open>size\<close> bytes into the block just allocated.
\<close>

definition init ::
  "(nat \<Rightarrow> byte) option \<Rightarrow> taia \<Rightarrow> cache \<Rightarrow> uint32 \<Rightarrow> cache_options option
     \<Rightarrow> (fault + bool \<times> cache) option" where
  "init heap now c cachesize opts =
     (case alloc heap (unat cachesize) of
        None \<Rightarrow> Some (Inr (False, c))
      | Some mem \<Rightarrow>
          (let sz = clamp_size cachesize in
           case hsize_loop 4 sz of
             None \<Rightarrow> None
           | Some hs \<Rightarrow>
               if unat sz > length mem then Some (Inl Memory_fault)
               else Some (Inr (True,
                 c\<lparr>x := Some (store mem 0 (replicate (unat sz) 0)),
                   size_c := sz, hsize := hs,
                   writer := hs, oldest := sz, unused := sz,
                   cycle_start := now, cycle_last_ratio := 0,
                   options := (case opts of
                       Some os \<Rightarrow> os
                     | None \<Rightarrow> (options c)\<lparr>allow_resize := True,
                                   target_cycle_time := DEFAULT_TARGET_CYCLETIME\<rparr>)\<rparr>))))"


section \<open>Lookup\<close>

text \<open>
  The body of \<open>if (get4(c,pos + 4) == keylen) { ... }\<close> in \<open>cache_t_get\<close>.  The result
  \<open>Inr None\<close> means that control falls through to the advance of the walk;
  \<open>Inr (Some r)\<close> that the function returns \<open>r\<close>, which is \<open>None\<close> for the null
  pointer and otherwise the \<open>datalen\<close> bytes the returned pointer points to, with
  \<open>*datalen\<close> and \<open>*ttl\<close>.  \<open>now\<close> is the reading of \<open>tai_now\<close>.
\<close>

definition get_match ::
  "cache \<Rightarrow> byte list \<Rightarrow> tai \<Rightarrow> uint32
     \<Rightarrow> fault + (byte list \<times> uint32 \<times> uint32) option option" where
  "get_match c key now pos =
     (let keylen = (word_of_nat (length key) :: uint32) in
      case get4 c (pos + 4) of
        Inl f \<Rightarrow> Inl f
      | Inr kl \<Rightarrow>
          if kl \<noteq> keylen then Inr None
          else if pos + 20 + keylen > size_c c then Inl Exit111
          else case x c of
            None \<Rightarrow> Inl Memory_fault
          | Some a \<Rightarrow>
              if unat pos + 20 + length key > length a then Inl Memory_fault
              else if load a (unat pos + 20) (length key) \<noteq> key then Inr None
              else
                (let expire = tai_unpack (load a (unat pos + 12) 8) in
                 if tai_less expire now then Inr (Some None)
                 else
                   (let d0 = tai_approx (tai_sub expire now);
                        d = (if d0 > 604800 then 604800 else d0);
                        ttl = (word_of_nat (nat \<lfloor>d\<rfloor>) :: uint32)
                    in case get4 c (pos + 8) of
                         Inl f \<Rightarrow> Inl f
                       | Inr u \<Rightarrow>
                           if u > size_c c - pos - 20 - keylen then Inl Exit111
                           else Inr (Some (Some
                             (load a (unat pos + 20 + length key) (unat u), u, ttl))))))"

text \<open>
  The loop \<open>while (pos) { ... }\<close> of \<open>cache_t_get\<close>.  Beside the outcome it returns
  the positions of the entries it has inspected, in the order of the walk.
\<close>

function get_loop ::
  "cache \<Rightarrow> byte list \<Rightarrow> tai \<Rightarrow> uint32 \<Rightarrow> uint32 \<Rightarrow> nat
     \<Rightarrow> uint32 list \<times> (fault + (byte list \<times> uint32 \<times> uint32) option)" where
  "get_loop c key now prevpos pos loop =
     (if pos = 0 then ([], Inr None)
      else case get_match c key now pos of
        Inl f \<Rightarrow> ([pos], Inl f)
      | Inr (Some r) \<Rightarrow> ([pos], Inr r)
      | Inr None \<Rightarrow>
          (case get4 c pos of
             Inl f \<Rightarrow> ([pos], Inl f)
           | Inr l \<Rightarrow>
               if Suc loop > 100 then ([pos], Inr None)
               else (case get_loop c key now pos (prevpos XOR l) (Suc loop) of
                       (ps, r) \<Rightarrow> (pos # ps, r))))"
  by pat_completeness auto
termination
  by (relation "measure (\<lambda>(c, key, now, prevpos, pos, loop). 100 - loop)") auto

declare get_loop.simps [simp del]

text \<open>
  \<open>cache_t_get\<close>.  The handle \<open>cache\<close> is \<open>None\<close> when null.  \<open>stamp\<close> is the
  parameter of that name (\<open>None\<close> when null) and \<open>now\<close> the reading of the time source.
\<close>

definition cache_t_get_trace ::
  "cache option \<Rightarrow> byte list \<Rightarrow> tai option \<Rightarrow> tai
     \<Rightarrow> uint32 list \<times> (fault + (byte list \<times> uint32 \<times> uint32) option)" where
  "cache_t_get_trace cache key stamp now =
     (case cache of
        None \<Rightarrow> ([], Inr None)
      | Some c \<Rightarrow>
          if x c = None then ([], Inr None)
          else if length key > MAXKEYLEN then ([], Inr None)
          else (let prevpos = hash c key in
                case get4 c prevpos of
                  Inl f \<Rightarrow> ([], Inl f)
                | Inr pos \<Rightarrow> get_loop c key now prevpos pos 0))"

definition cache_t_get ::
  "cache option \<Rightarrow> byte list \<Rightarrow> tai option \<Rightarrow> tai
     \<Rightarrow> fault + (byte list \<times> uint32 \<times> uint32) option" where
  "cache_t_get cache key stamp now = snd (cache_t_get_trace cache key stamp now)"

text \<open>\<open>cache_t_new\<close> and \<open>cache_t_init\<close>.  \<open>cache_t_new\<close> allocates the struct first
  (\<open>struct_ok\<close> tells whether that succeeds; the source does not test it before
  \<open>byte_zero\<close>) and zeroes it.\<close>

definition zero_cache :: cache where
  "zero_cache =
     \<lparr>x = None, size_c = 0, hsize = 0, writer = 0, oldest = 0, unused = 0,
      cache_motion = 0, cycle_start = 0, cycle_last_ratio = 0,
      cycle_ttl = \<lparr>count_ttl = 0, total_ttl = 0, max_ttl = 0, min_ttl = 0\<rparr>,
      options = \<lparr>allow_resize = False, target_cycle_time = 0, resize_callback = None\<rparr>\<rparr>"

definition cache_t_new ::
  "bool \<Rightarrow> (nat \<Rightarrow> byte) option \<Rightarrow> taia \<Rightarrow> uint32 \<Rightarrow> cache_options option
     \<Rightarrow> (fault + cache option) option" where
  "cache_t_new struct_ok heap now cachesize opts =
     (if \<not> struct_ok then Some (Inl Memory_fault)
      else case init heap now zero_cache cachesize opts of
        None \<Rightarrow> None
      | Some (Inl f) \<Rightarrow> Some (Inl f)
      | Some (Inr (ok, c)) \<Rightarrow> Some (Inr (if ok then Some c else None)))"

definition cache_t_init ::
  "(nat \<Rightarrow> byte) option \<Rightarrow> taia \<Rightarrow> cache option \<Rightarrow> uint32 \<Rightarrow> cache_options option
     \<Rightarrow> (fault + bool \<times> cache option) option" where
  "cache_t_init heap now cache cachesize opts =
     (case cache of
        None \<Rightarrow> Some (Inr (False, None))
      | Some c \<Rightarrow>
          (case init heap now c cachesize opts of
             None \<Rightarrow> None
           | Some (Inl f) \<Rightarrow> Some (Inl f)
           | Some (Inr (ok, c')) \<Rightarrow> Some (Inr (ok, Some c'))))"


section \<open>The adaptive sizer\<close>

text \<open>
  What one call of \<open>cache_t_set\<close> reads from outside the cache: the reading of
  \<open>taia_now\<close> at the start of \<open>check_for_resize\<close>, the reading of the later
  \<open>taia_now\<close> that stamps \<open>cycle.start\<close> (in \<open>init\<close> or at the end of
  \<open>check_for_resize\<close>), the outcome of the \<open>alloc\<close> in \<open>init\<close>, the value that
  the conversion of a \<open>double\<close> outside the range of \<open>unsigned int\<close> produces (C
  leaves it open), and the reading of \<open>tai_now\<close> before the entry is written.
\<close>

record env =
  taia_check :: taia
  taia_start :: taia
  heap_env :: "(nat \<Rightarrow> byte) option"
  conv_junk :: uint32
  tai_now :: tai

definition double_to_uint :: "uint32 \<Rightarrow> real \<Rightarrow> uint32" where
  "double_to_uint junk d = (if - 1 < d \<and> d < 2 ^ 32 then word_of_nat (nat \<lfloor>d\<rfloor>) else junk)"

text \<open>
  The arithmetic of \<open>double\<close>.  C computes each operation exactly and rounds the result
  to the nearest number with a 53-bit significand, ties to the even one (IEEE 754
  binary64).  \<open>normalise\<close> scales a positive number into \<open>[2 ^ 52, 2 ^ 53)\<close>, where
  the doubles are the integers; 2200 steps reach every exponent a double can have.
  Overflow and subnormal numbers are not modelled.
\<close>

fun normalise :: "nat \<Rightarrow> real \<Rightarrow> int \<Rightarrow> real \<times> int" where
  "normalise 0 m e = (m, e)"
| "normalise (Suc k) m e =
     (if m < 2 ^ 52 then normalise k (2 * m) (e - 1)
      else if 2 ^ 53 \<le> m then normalise k (m / 2) (e + 1)
      else (m, e))"

definition round_double :: "real \<Rightarrow> real" where
  "round_double r =
     (if r = 0 then 0
      else case normalise 2200 \<bar>r\<bar> 0 of
        (m, e) \<Rightarrow>
          (let n = \<lfloor>m\<rfloor>;
               n' = (if m - of_int n < 1 / 2 \<or> (m - of_int n = 1 / 2 \<and> even n) then n else n + 1)
           in sgn r * of_int n' * (if 0 \<le> e then 2 ^ nat e else 1 / 2 ^ nat (- e))))"

text \<open>\<open>should_resize\<close> returns \<open>(*ratio, *newsize, resize)\<close>.  The quotient and the two
  products of \<open>c->size * (*ratio) * 1.1\<close> are operations on doubles, and \<open>1.1\<close> is
  the double nearest to it.\<close>

definition should_resize :: "uint32 \<Rightarrow> cache \<Rightarrow> real \<Rightarrow> real \<times> uint32 \<times> bool" where
  "should_resize junk c cycle_time =
     (let ratio = round_double (real (unat (target_cycle_time (options c))) / cycle_time);
          newsize = clamp_size (double_to_uint junk
            (round_double (round_double (real (unat (size_c c)) * ratio) * round_double (11 / 10))))
      in (ratio, newsize,
          if cycle_last_ratio c \<noteq> 0
          then (ratio > 1 \<and> cycle_last_ratio c > 1 \<and> size_c c < MAXCACHESIZE)
             \<or> (ratio < 1 / 2 \<and> cycle_last_ratio c < 1 / 2 \<and> size_c c > MINCACHESIZE)
          else False))"

text \<open>\<open>check_for_resize\<close> returns its flag and the cache as it leaves it.  The line
  written by \<open>log_cache_resize\<close> is not modelled.\<close>

definition check_for_resize :: "env \<Rightarrow> cache \<Rightarrow> (fault + bool \<times> cache) option" where
  "check_for_resize e c =
     (let cycle_time = taia_approx (taia_sub (taia_check e) (cycle_start c)) in
      if allow_resize (options c) \<and> cycle_time \<noteq> 0 then
        (case should_resize (conv_junk e) c cycle_time of
           (ratio, newsize, resize0) \<Rightarrow>
             (let resize = (case resize_callback (options c) of
                              None \<Rightarrow> resize0
                            | Some cb \<Rightarrow> cb ratio (size_c c) newsize (cycle_ttl c) resize0)
              in if resize then
                   (let c0 = c\<lparr>cycle_last_ratio := 0\<rparr> in
                    case init (heap_env e) (taia_start e) c0 newsize (Some (options c0)) of
                      None \<Rightarrow> None
                    | Some (Inl f) \<Rightarrow> Some (Inl f)
                    | Some (Inr (ok, c1)) \<Rightarrow> Some (Inr (True, c1)))
                 else Some (Inr (False, c\<lparr>cycle_last_ratio := ratio,
                                           cycle_start := taia_start e\<rparr>))))
      else Some (Inr (False, c\<lparr>cycle_start := taia_start e\<rparr>)))"

section \<open>Insertion\<close>

definition cycle_stats_add_ttl :: "cache \<Rightarrow> uint32 \<Rightarrow> cache" where
  "cycle_stats_add_ttl c ttl =
     (let s0 = cycle_ttl c;
          s1 = s0\<lparr>count_ttl := count_ttl s0 + 1, total_ttl := total_ttl s0 + ucast ttl\<rparr>;
          s2 = (if max_ttl s1 = 0 \<or> ttl > max_ttl s1 then s1\<lparr>max_ttl := ttl\<rparr> else s1);
          s3 = (if min_ttl s2 = 0 \<or> ttl < min_ttl s2 then s2\<lparr>min_ttl := ttl\<rparr> else s2)
      in c\<lparr>cycle_ttl := s3\<rparr>)"

text \<open>\<open>cycle_stats_clear_ttl\<close> is defined in the source; no function calls it.\<close>

definition cycle_stats_clear_ttl :: "cache \<Rightarrow> cache" where
  "cycle_stats_clear_ttl c =
     c\<lparr>cycle_ttl := \<lparr>count_ttl = 0, total_ttl = 0, max_ttl = 0, min_ttl = 0\<rparr>\<rparr>"

text \<open>The eviction of the entry at \<open>oldest\<close>: the statements of the loop body of
  \<open>cache_t_set\<close> after the test for the cycle boundary.\<close>

definition evict :: "cache \<Rightarrow> fault + cache" where
  "evict c =
     (case get4 c (oldest c) of
        Inl f \<Rightarrow> Inl f
      | Inr pos \<Rightarrow>
     (case get4 c pos of
        Inl f \<Rightarrow> Inl f
      | Inr l \<Rightarrow>
     (case set4 c pos (l XOR oldest c) of
        Inl f \<Rightarrow> Inl f
      | Inr c1 \<Rightarrow>
     (case get4 c1 (oldest c1 + 4) of
        Inl f \<Rightarrow> Inl f
      | Inr kl \<Rightarrow>
     (case get4 c1 (oldest c1 + 8) of
        Inl f \<Rightarrow> Inl f
      | Inr dl \<Rightarrow>
          (let c2 = c1\<lparr>oldest := oldest c1 + (kl + dl + 20)\<rparr> in
           if oldest c2 > unused c2 then Inl Exit111
           else if oldest c2 = unused c2
             then Inr (c2\<lparr>unused := size_c c2, oldest := size_c c2\<rparr>)
             else Inr c2))))))"

text \<open>
  The loop \<open>while (c->writer + entrylen > c->oldest) { ... }\<close>.  It is left in one of
  three ways: the condition is false and the entry is appended (\<open>Room\<close>); the
  \<open>return\<close> for an entry that does not fit an empty arena (\<open>Gave_up\<close>); or
  \<open>check_for_resize\<close> has answered 1, and \<open>cache_t_set\<close> calls itself and returns
  (\<open>Resized\<close>).
\<close>

datatype loop_exit = Room cache | Gave_up cache | Resized cache

partial_function (option) set_loop :: "env \<Rightarrow> uint32 \<Rightarrow> cache \<Rightarrow> (fault + loop_exit) option" where
  "set_loop e entrylen c =
     (if writer c + entrylen > oldest c then
        (if oldest c = unused c then
           (if writer c \<le> hsize c then Some (Inr (Gave_up c))
            else case check_for_resize e c of
              None \<Rightarrow> None
            | Some (Inl f) \<Rightarrow> Some (Inl f)
            | Some (Inr (resized, c1)) \<Rightarrow>
                if resized then Some (Inr (Resized c1))
                else (case evict (c1\<lparr>unused := writer c1, oldest := hsize c1,
                                      writer := hsize c1\<rparr>) of
                        Inl f \<Rightarrow> Some (Inl f)
                      | Inr c2 \<Rightarrow> set_loop e entrylen c2))
         else (case evict c of
                 Inl f \<Rightarrow> Some (Inl f)
               | Inr c2 \<Rightarrow> set_loop e entrylen c2))
      else Some (Inr (Room c)))"

declare set_loop.simps [code]

text \<open>A copy of \<open>bs\<close> to \<open>c->x + p\<close> that the source does not guard (\<open>tai_pack\<close>,
  \<open>byte_copy\<close>).\<close>

definition poke :: "cache \<Rightarrow> nat \<Rightarrow> byte list \<Rightarrow> fault + cache" where
  "poke c p bs =
     (case x c of
        None \<Rightarrow> Inl Memory_fault
      | Some a \<Rightarrow>
          if p + length bs > length a then Inl Memory_fault
          else Inr (c\<lparr>x := Some (store a p bs)\<rparr>))"

text \<open>The statements of \<open>cache_t_set\<close> after the loop, which write the entry at
  \<open>writer\<close> and link it in at the head of its chain.\<close>

definition append_entry :: "env \<Rightarrow> cache \<Rightarrow> byte list \<Rightarrow> byte list \<Rightarrow> uint32 \<Rightarrow> fault + cache" where
  "append_entry e c key data ttl =
     (let keylen = (word_of_nat (length key) :: uint32);
          datalen = (word_of_nat (length data) :: uint32);
          entrylen = keylen + datalen + 20;
          keyhash = hash c key;
          expire = tai_add (tai_uint ttl) (tai_now e) in
      case get4 c keyhash of
        Inl f \<Rightarrow> Inl f
      | Inr pos \<Rightarrow>
     (case (if pos \<noteq> 0
            then (case get4 c pos of
                    Inl f \<Rightarrow> Inl f
                  | Inr l \<Rightarrow> set4 c pos (l XOR keyhash XOR writer c))
            else Inr c) of
        Inl f \<Rightarrow> Inl f
      | Inr c1 \<Rightarrow>
     (case set4 c1 (writer c1) (pos XOR keyhash) of
        Inl f \<Rightarrow> Inl f
      | Inr c2 \<Rightarrow>
     (case set4 c2 (writer c2 + 4) keylen of
        Inl f \<Rightarrow> Inl f
      | Inr c3 \<Rightarrow>
     (case set4 c3 (writer c3 + 8) datalen of
        Inl f \<Rightarrow> Inl f
      | Inr c4 \<Rightarrow>
     (case poke c4 (unat (writer c4) + 12) (tai_pack expire) of
        Inl f \<Rightarrow> Inl f
      | Inr c5 \<Rightarrow>
     (case poke c5 (unat (writer c5) + 20) key of
        Inl f \<Rightarrow> Inl f
      | Inr c6 \<Rightarrow>
     (case poke c6 (unat (writer c6) + 20 + length key) data of
        Inl f \<Rightarrow> Inl f
      | Inr c7 \<Rightarrow>
     (case set4 (cycle_stats_add_ttl c7 ttl) keyhash (writer c7) of
        Inl f \<Rightarrow> Inl f
      | Inr c8 \<Rightarrow>
          Inr (c8\<lparr>writer := writer c8 + entrylen,
                  cache_motion := cache_motion c8 + ucast entrylen\<rparr>))))))))))"

text \<open>
  \<open>cache_t_set\<close>.  \<open>envs 0\<close> is what this call reads from outside, \<open>envs 1\<close> what
  the call it makes of itself reads, and so on.  The result is \<open>None\<close> when the call
  does not return.  The process-wide counter \<open>cache_motion\<close> and the pointer
  \<open>default_cache\<close> are outside the model.
\<close>

partial_function (option) cache_t_set ::
  "(nat \<Rightarrow> env) \<Rightarrow> cache option \<Rightarrow> byte list \<Rightarrow> byte list \<Rightarrow> uint32
     \<Rightarrow> (fault + cache option) option" where
  "cache_t_set envs cache key data ttl =
     (case cache of
        None \<Rightarrow> Some (Inr None)
      | Some c \<Rightarrow>
          if x c = None then Some (Inr (Some c))
          else if length key > MAXKEYLEN then Some (Inr (Some c))
          else if length data > MAXDATALEN then Some (Inr (Some c))
          else
            (let ttl1 = (if ttl > 604800 then 604800 else ttl);
                 entrylen = (word_of_nat (length key) + word_of_nat (length data) + 20 :: uint32)
             in case set_loop (envs 0) entrylen c of
                  None \<Rightarrow> None
                | Some (Inl f) \<Rightarrow> Some (Inl f)
                | Some (Inr (Gave_up c1)) \<Rightarrow> Some (Inr (Some c1))
                | Some (Inr (Resized c1)) \<Rightarrow>
                    cache_t_set (\<lambda>i. envs (Suc i)) (Some c1) key data ttl1
                | Some (Inr (Room c1)) \<Rightarrow>
                    (case append_entry (envs 0) c1 key data ttl1 of
                       Inl f \<Rightarrow> Some (Inl f)
                     | Inr c2 \<Rightarrow> Some (Inr (Some c2)))))"

declare cache_t_set.simps [code]

section \<open>Observations and concrete inputs\<close>

text \<open>The value a call returns, when it returns without a fault; and the handle that a
  call of \<open>cache_t_new\<close> or \<open>cache_t_set\<close> leaves (null in every other case).\<close>

definition returned :: "(fault + 'a) option \<Rightarrow> 'a option" where
  "returned r = (case r of Some (Inr v) \<Rightarrow> Some v | _ \<Rightarrow> None)"

definition handle_of :: "(fault + cache option) option \<Rightarrow> cache option" where
  "handle_of r = (case r of Some (Inr h) \<Rightarrow> h | _ \<Rightarrow> None)"

text \<open>The arena buffer with its content, the size and the cursors.\<close>

definition arena_state ::
  "cache \<Rightarrow> byte list option \<times> uint32 \<times> uint32 \<times> uint32 \<times> uint32 \<times> uint32" where
  "arena_state c = (x c, size_c c, hsize c, writer c, oldest c, unused c)"

text \<open>The largest power of two not exceeding \<open>n\<close> (1 for \<open>n = 0\<close>).\<close>

fun largest_pow2_le :: "nat \<Rightarrow> nat" where
  "largest_pow2_le n = (if n < 2 then 1 else 2 * largest_pow2_le (n div 2))"

declare largest_pow2_le.simps [simp del]

text \<open>A heap that hands out blocks of zero bytes, and the cache that \<open>init\<close> makes of
  a zeroed struct for a request of 128 bytes at time 3.\<close>

definition zero_heap :: "nat \<Rightarrow> byte" where
  "zero_heap i = 0"

definition c128 :: cache where
  "c128 = zero_cache\<lparr>x := Some (replicate 128 0), size_c := 128, hsize := 8, writer := 8,
     oldest := 128, unused := 128, cycle_start := 3,
     options := \<lparr>allow_resize = True, target_cycle_time = 86400, resize_callback = None\<rparr>\<rparr>"

text \<open>What a call of \<open>cache_t_set\<close> reads when the clock shows the second \<open>t\<close>, no
  block can be allocated and the time source of \<open>check_for_resize\<close> stands at 0.\<close>

definition env_at :: "tai \<Rightarrow> env" where
  "env_at t = \<lparr>taia_check = 0, taia_start = 0, heap_env = None, conv_junk = 0, tai_now = t\<rparr>"

definition clock_at :: "tai \<Rightarrow> nat \<Rightarrow> env" where
  "clock_at t i = env_at t"

text \<open>The cycle statistics that a call of \<open>cache_t_init\<close> leaves.\<close>

definition stats_of :: "(fault + bool \<times> cache option) option \<Rightarrow> ttl_stats option" where
  "stats_of r = (case r of Some (Inr (ok, Some c)) \<Rightarrow> Some (cycle_ttl c) | _ \<Rightarrow> None)"

section \<open>The layout of the arena\<close>

text \<open>The fields of the entry at offset \<open>p\<close> of the arena \<open>a\<close>: link, keylen, datalen,
  expire time, key and data.\<close>

definition rd4 :: "byte list \<Rightarrow> nat \<Rightarrow> uint32" where
  "rd4 a p = uint32_unpack (load a p 4)"

definition klen :: "byte list \<Rightarrow> nat \<Rightarrow> nat" where
  "klen a p = unat (rd4 a (p + 4))"

definition dlen :: "byte list \<Rightarrow> nat \<Rightarrow> nat" where
  "dlen a p = unat (rd4 a (p + 8))"

definition elen :: "byte list \<Rightarrow> nat \<Rightarrow> nat" where
  "elen a p = klen a p + dlen a p + 20"

definition key_at :: "byte list \<Rightarrow> nat \<Rightarrow> byte list" where
  "key_at a p = load a (p + 20) (klen a p)"

definition data_at :: "byte list \<Rightarrow> nat \<Rightarrow> byte list" where
  "data_at a p = load a (p + 20 + klen a p) (dlen a p)"

definition expire_at :: "byte list \<Rightarrow> nat \<Rightarrow> tai" where
  "expire_at a p = tai_unpack (load a (p + 12) 8)"

text \<open>\<open>region a p q\<close> reads the bytes from \<open>p\<close> up to \<open>q\<close> as consecutive entries: it is
  the list of their offsets when the last entry ends at \<open>q\<close>, and \<open>None\<close> otherwise.\<close>

function region :: "byte list \<Rightarrow> nat \<Rightarrow> nat \<Rightarrow> nat list option" where
  "region a p q =
     (if p = q then Some []
      else if p + elen a p \<le> q then map_option ((#) p) (region a (p + elen a p) q)
      else None)"
  by pat_completeness auto
termination
  by (relation "measure (\<lambda>(a, p, q). q - p)") (auto simp: elen_def)

declare region.simps [simp del]

text \<open>The entries of the cache, oldest first: those of the old region
  \<open>[oldest, unused)\<close>, then those of the new region \<open>[hsize, writer)\<close>.\<close>

definition live :: "cache \<Rightarrow> nat list" where
  "live c =
     (case x c of
        None \<Rightarrow> []
      | Some a \<Rightarrow>
          (case (region a (unat (oldest c)) (unat (unused c)),
                 region a (unat (hsize c)) (unat (writer c))) of
             (Some old, Some new) \<Rightarrow> old @ new
           | _ \<Rightarrow> []))"

text \<open>\<open>walk a prev cur ps\<close>: the walk over the XOR links that comes from \<open>prev\<close> and
  stands at \<open>cur\<close> visits exactly the entries \<open>ps\<close> and then the sentinel 0.\<close>

fun walk :: "byte list \<Rightarrow> uint32 \<Rightarrow> uint32 \<Rightarrow> nat list \<Rightarrow> bool" where
  "walk a prev cur [] = (cur = 0)"
| "walk a prev cur (p # ps) = (cur = word_of_nat p \<and> walk a (word_of_nat p) (prev XOR rd4 a p) ps)"

text \<open>The chain of the bucket whose head slot is at offset \<open>b\<close>: the entries whose key
  hashes to \<open>b\<close>, newest first.\<close>

definition bucket_chain :: "cache \<Rightarrow> uint32 \<Rightarrow> nat list" where
  "bucket_chain c b = filter (\<lambda>p. hash c (key_at (the (x c)) p) = b) (rev (live c))"

text \<open>The invariant of the cursors, as the comment at the head of the source states it.\<close>

definition cursor_inv :: "cache \<Rightarrow> bool" where
  "cursor_inv c \<longleftrightarrow>
     hsize c \<le> writer c \<and> writer c \<le> oldest c \<and> oldest c \<le> unused c \<and> unused c \<le> size_c c
     \<and> (oldest c = unused c \<longrightarrow> unused c = size_c c)
     \<and> (\<exists>j. unat (hsize c) = 2 ^ j) \<and> 4 \<le> unat (hsize c)
     \<and> unat (hsize c) \<le> unat (size_c c) div 16"

text \<open>The invariant of the whole cache: the arena is allocated and at least \<open>size\<close> bytes
  long, the cursors are in order, both regions consist of consecutive entries, and the
  head slot of every bucket starts a well-formed chain of exactly the entries of that
  bucket, newest first.\<close>

definition cache_inv :: "cache \<Rightarrow> bool" where
  "cache_inv c \<longleftrightarrow>
     (case x c of
        None \<Rightarrow> False
      | Some a \<Rightarrow>
          100 \<le> unat (size_c c) \<and> unat (size_c c) \<le> 1000000000 \<and> unat (size_c c) \<le> length a
          \<and> cursor_inv c
          \<and> region a (unat (oldest c)) (unat (unused c)) \<noteq> None
          \<and> region a (unat (hsize c)) (unat (writer c)) \<noteq> None
          \<and> (\<forall>b. b < hsize c \<longrightarrow> unat b mod 4 = 0 \<longrightarrow> walk a b (rd4 a (unat b)) (bucket_chain c b)))"

text \<open>Two arenas of the same length that hold the same bytes from \<open>lo\<close> up to \<open>hi\<close>.\<close>

definition agree :: "byte list \<Rightarrow> byte list \<Rightarrow> nat \<Rightarrow> nat \<Rightarrow> bool" where
  "agree a a' lo hi \<longleftrightarrow> length a' = length a \<and> (\<forall>i. lo \<le> i \<and> i < hi \<and> i < length a \<longrightarrow> a' ! i = a ! i)"

text \<open>The caches that a successful \<open>init\<close> and then any number of calls of
  \<open>cache_t_set\<close> that return produce.  (A call of \<open>cache_t_get\<close> leaves the cache as
  it is: the function returns no cache.)\<close>

inductive reachable :: "cache \<Rightarrow> bool" where
  fresh: "init heap now c0 cachesize opts = Some (Inr (True, c)) \<Longrightarrow> reachable c"
| step: "reachable c \<Longrightarrow> cache_t_set envs (Some c) key data ttl = Some (Inr (Some c'))
           \<Longrightarrow> reachable c'"

text \<open>The same notions on the arena alone: the chain of bucket \<open>b\<close> among the entries
  \<open>L\<close> (oldest first) for a head table of \<open>hs\<close> bytes, the well-formedness of all
  chains, and entries that lie side by side between \<open>lo\<close> and \<open>hi\<close>.\<close>

definition chain_list :: "byte list \<Rightarrow> uint32 \<Rightarrow> nat list \<Rightarrow> uint32 \<Rightarrow> nat list" where
  "chain_list a hs L b =
     filter (\<lambda>p. push_bit 2 (hash_loop 5381 (key_at a p)) AND (hs - 4) = b) (rev L)"

definition chains_ok :: "byte list \<Rightarrow> uint32 \<Rightarrow> nat list \<Rightarrow> bool" where
  "chains_ok a hs L \<longleftrightarrow>
     (\<forall>b. b < hs \<longrightarrow> unat b mod 4 = 0 \<longrightarrow> walk a b (rd4 a (unat b)) (chain_list a hs L b))"

definition separated :: "byte list \<Rightarrow> nat \<Rightarrow> nat \<Rightarrow> nat list \<Rightarrow> bool" where
  "separated a lo hi L \<longleftrightarrow>
     distinct L \<and> (\<forall>e\<in>set L. lo \<le> e \<and> e + elen a e \<le> hi)
     \<and> (\<forall>e\<in>set L. \<forall>e'\<in>set L. e \<noteq> e' \<longrightarrow> e + elen a e \<le> e' \<or> e' + elen a e' \<le> e)"

text \<open>The bucket of a key for a head table of \<open>hs\<close> bytes, as \<open>hash\<close> computes it.\<close>

definition bucket :: "uint32 \<Rightarrow> byte list \<Rightarrow> uint32" where
  "bucket hs key = push_bit 2 (hash_loop 5381 key) AND (hs - 4)"

text \<open>The invariant of the arena alone, for the entries \<open>L\<close> (oldest first) that lie
  between the head table and \<open>hi\<close>.\<close>

definition arena_inv :: "byte list \<Rightarrow> uint32 \<Rightarrow> nat \<Rightarrow> nat list \<Rightarrow> bool" where
  "arena_inv a hs hi L \<longleftrightarrow>
     4 \<le> unat hs \<and> unat hs mod 4 = 0 \<and> hi \<le> length a \<and> hi \<le> 1000000000
     \<and> separated a (unat hs) hi L \<and> chains_ok a hs L"

text \<open>The six writes that put an entry at offset \<open>w\<close>: link, keylen, datalen, expire
  time, key and data.\<close>

definition write_entry ::
  "byte list \<Rightarrow> nat \<Rightarrow> uint32 \<Rightarrow> byte list \<Rightarrow> byte list \<Rightarrow> tai \<Rightarrow> byte list" where
  "write_entry a w link key data expire =
     store (store (store (store (store (store a w (uint32_pack link))
       (w + 4) (uint32_pack (word_of_nat (length key))))
       (w + 8) (uint32_pack (word_of_nat (length data))))
       (w + 12) (tai_pack expire))
       (w + 20) key)
       (w + 20 + length key) data"

text \<open>A cache whose arena holds no entry, and a cache on which \<open>check_for_resize\<close>
  cannot decide to resize: either the new region is empty, so that the loop of
  \<open>cache_t_set\<close> never reaches the sizer, or there is no callback and no previous
  ratio.\<close>

definition fresh_arena :: "cache \<Rightarrow> bool" where
  "fresh_arena c \<longleftrightarrow> writer c = hsize c \<and> oldest c = size_c c \<and> unused c = size_c c"

definition quiet :: "cache \<Rightarrow> bool" where
  "quiet c \<longleftrightarrow> writer c = hsize c
     \<or> (resize_callback (options c) = None \<and> cycle_last_ratio c = 0)"

text \<open>What holds when the loop of \<open>cache_t_set\<close>, started in the cache \<open>c\<close> for an
  entry of \<open>entrylen\<close> bytes, is left in the way \<open>r\<close>.\<close>

definition loop_post :: "env \<Rightarrow> uint32 \<Rightarrow> cache \<Rightarrow> loop_exit \<Rightarrow> bool" where
  "loop_post e entrylen c r =
     (case r of
        Room c' \<Rightarrow>
          cache_inv c' \<and> unat (writer c') + unat entrylen \<le> unat (oldest c')
          \<and> size_c c' = size_c c \<and> hsize c' = hsize c \<and> options c' = options c
      | Gave_up c' \<Rightarrow>
          cache_inv c' \<and> live c' = [] \<and> size_c c' = size_c c \<and> hsize c' = hsize c
          \<and> unat (size_c c') < unat (hsize c') + unat entrylen \<and> options c' = options c
      | Resized c' \<Rightarrow>
          cache_inv c' \<and> options c' = options c \<and> cycle_last_ratio c' = 0 \<and> \<not> quiet c
          \<and> (if heap_env e = None then size_c c' = size_c c \<and> hsize c' = hsize c
              else fresh_arena c' \<and> live c' = []))"

text \<open>The measure that decreases with every iteration of that loop.\<close>

definition loop_measure :: "cache \<Rightarrow> nat" where
  "loop_measure c =
     (if writer c \<le> hsize c then 0 else 4294967296) + (unat (unused c) - unat (oldest c))"

text \<open>What \<open>cache_t_set\<close> promises.  The entry fits the arena when
  \<open>20 + keylen + datalen \<le> size - hsize\<close>.  It is stored when it is the newest entry,
  at the head of the chain of its key, with the key, the data and the expire time that
  were passed.  After a call that returns the invariant holds, and the entry is stored
  if it fits the arena that the call leaves; if it does not, the arena is empty.\<close>

definition fits :: "cache \<Rightarrow> byte list \<Rightarrow> byte list \<Rightarrow> bool" where
  "fits c key data \<longleftrightarrow> unat (hsize c) + (length key + length data + 20) \<le> unat (size_c c)"

definition stored :: "cache \<Rightarrow> byte list \<Rightarrow> byte list \<Rightarrow> tai \<Rightarrow> bool" where
  "stored c key data expire \<longleftrightarrow>
     (\<exists>a L w. x c = Some a \<and> live c = L @ [w]
        \<and> unat (writer c) = w + (length key + length data + 20)
        \<and> rd4 a (unat (hash c key)) = word_of_nat w
        \<and> klen a w = length key \<and> dlen a w = length data
        \<and> key_at a w = key \<and> data_at a w = data \<and> expire_at a w = expire)"

definition set_post :: "cache \<Rightarrow> byte list \<Rightarrow> byte list \<Rightarrow> tai \<Rightarrow> bool" where
  "set_post c key data expire \<longleftrightarrow>
     cache_inv c \<and> (if fits c key data then stored c key data expire else live c = [])"


text \<open>The lookup as the layout describes it.  \<open>remaining expire now\<close> is the time to
  live that \<open>cache_t_get\<close> reports for an entry that expires at \<open>expire\<close>.
  \<open>get_spec a key now ps loop\<close> goes through the entries \<open>ps\<close> of a chain, newest
  first, with \<open>loop\<close> entries already behind it: it stops at the first entry that holds
  the key, a hit unless the entry has expired, and gives up after the entry that brings
  the count to 101.  It returns the entries it has looked at and the outcome.\<close>

definition remaining :: "tai \<Rightarrow> tai \<Rightarrow> uint32" where
  "remaining expire now =
     word_of_nat (nat \<lfloor>if tai_approx (tai_sub expire now) > 604800 then 604800
                         else tai_approx (tai_sub expire now)\<rfloor>)"

fun get_spec ::
  "byte list \<Rightarrow> byte list \<Rightarrow> tai \<Rightarrow> nat list \<Rightarrow> nat
     \<Rightarrow> nat list \<times> (byte list \<times> uint32 \<times> uint32) option" where
  "get_spec a key now [] loop = ([], None)"
| "get_spec a key now (p # ps) loop =
     (if key_at a p = key
      then ([p], if tai_less (expire_at a p) now then None
                 else Some (data_at a p, rd4 a (p + 8), remaining (expire_at a p) now))
      else if 100 \<le> loop then ([p], None)
      else (case get_spec a key now ps (Suc loop) of (qs, r) \<Rightarrow> (p # qs, r)))"

text \<open>What a call of \<open>cache_t_set\<close> reads \<open>s\<close> seconds after the origin of the time
  source, the TAI label of that second being \<open>2 ^ 62 + s\<close>, when every allocation returns
  a zeroed block.\<close>

definition env_on :: "nat \<Rightarrow> env" where
  "env_on s = \<lparr>taia_check = real s, taia_start = real s, heap_env = Some zero_heap,
     conv_junk = 0, tai_now = 4611686018427387904 + word_of_nat s\<rparr>"

definition clock_on :: "nat \<Rightarrow> nat \<Rightarrow> env" where
  "clock_on s i = env_on s"

text \<open>Three calls of \<open>cache_t_set\<close> on the cache of 128 bytes, each with a key of one
  byte, 80 bytes of data and a TTL of 60 seconds: the first after 10 seconds, the second
  four days after the initialisation, the third four days after the second.\<close>

definition shrink1 :: "cache option" where
  "shrink1 = handle_of (cache_t_set (clock_on 10) (Some c128) [107] (replicate 80 118) 60)"

definition shrink2 :: "cache option" where
  "shrink2 = handle_of (cache_t_set (clock_on 345603) shrink1 [107] (replicate 80 118) 60)"

definition shrink3 :: "cache option" where
  "shrink3 = handle_of (cache_t_set (clock_on 691203) shrink2 [107] (replicate 80 118) 60)"



text \<open>Options with a callback that approves every resize; the cache of 128 bytes with
  these options after one call of \<open>cache_t_set\<close> that stores an entry of 101 bytes; and
  a time source for later calls, 20 seconds after the origin, with an allocator that
  fails.\<close>

definition eager :: cache_options where
  "eager = \<lparr>allow_resize = True, target_cycle_time = 86400,
     resize_callback = Some (\<lambda>ratio oldsize newsize stats proposed. True)\<rparr>"

definition stuck :: "cache option" where
  "stuck = handle_of (cache_t_set (clock_on 10) (Some (c128\<lparr>options := eager\<rparr>))
     [107] (replicate 80 118) 60)"

definition no_memory :: "nat \<Rightarrow> env" where
  "no_memory i = (env_on 20)\<lparr>heap_env := None\<rparr>"

section \<open>Facts about initialisation\<close>

lemma unat_drop5: "unat (drop_bit 5 (s::uint32)) = unat s div 32"
  by (simp add: unat_drop_bit_eq drop_bit_eq_div unat_div)

lemma drop5_bound: "unat (drop_bit 5 (s::uint32)) < 2 ^ 27"
  using unsigned_less[of s, where 'a=nat] by (simp add: unat_drop5)

lemma unat_2p: "k < 32 \<Longrightarrow> unat ((2::uint32) ^ k) = 2 ^ k"
proof -
  assume k: "k < 32"
  have "(2::uint32) ^ k = word_of_nat (2 ^ k)" by simp
  moreover have "(2::nat) ^ k < 2 ^ 32" using k by (intro power_strict_increasing) simp_all
  ultimately show ?thesis by (simp only: unat_of_nat mod_less) simp
qed

text \<open>Started at a power of two below \<open>2 ^ 32\<close>, the loop for \<open>hsize\<close> ends, at the
  first power of two above \<open>size >> 5\<close>.\<close>

lemma hsize_loop_pow:
  "n = 28 - k \<Longrightarrow> k < 32 \<Longrightarrow>
   \<exists>j. hsize_loop (2 ^ k) s = Some (2 ^ j) \<and> k \<le> j \<and> j < 32
      \<and> unat s div 32 < 2 ^ j
      \<and> (k < j \<longrightarrow> 2 ^ (j - 1) \<le> unat s div 32)"
proof (induction n arbitrary: k)
  case 0
  then have k: "27 < k" "k < 32" by simp_all
  have "(2::nat) ^ 27 < 2 ^ k" using k by (intro power_strict_increasing) simp_all
  then have lt: "unat s div 32 < 2 ^ k" using drop5_bound[of s] by (simp add: unat_drop5)
  then have "\<not> ((2::uint32) ^ k \<le> drop_bit 5 s)"
    using k by (simp only: word_le_nat_alt unat_2p unat_drop5)
  then have "hsize_loop (2 ^ k) s = Some (2 ^ k)"
    by (subst hsize_loop.simps) simp
  with lt k show ?case by blast
next
  case (Suc n)
  then have k: "k < 28" "n = 28 - Suc k" "Suc k < 32" by simp_all
  show ?case
  proof (cases "(2::uint32) ^ k \<le> drop_bit 5 s")
    case True
    then have le: "2 ^ k \<le> unat s div 32"
      using k by (simp only: word_le_nat_alt unat_2p unat_drop5 Suc.prems)
    from Suc.IH[OF k(2,3)] obtain j where
      j: "hsize_loop (2 ^ Suc k) s = Some (2 ^ j)" "Suc k \<le> j" "j < 32"
         "unat s div 32 < 2 ^ j" "Suc k < j \<longrightarrow> 2 ^ (j - 1) \<le> unat s div 32"
      by blast
    have "hsize_loop (2 ^ k) s = hsize_loop (2 ^ Suc k) s"
      using True by (subst hsize_loop.simps) (simp add: push_bit_eq_mult mult.commute)
    moreover have "2 ^ (j - 1) \<le> unat s div 32"
    proof (cases "Suc k < j")
      case True with j show ?thesis by simp
    next
      case False with j have "j = Suc k" by simp
      with le show ?thesis by simp
    qed
    ultimately show ?thesis using j by (intro exI[of _ j]) simp
  next
    case False
    then have lt: "unat s div 32 < 2 ^ k"
      using Suc.prems by (simp only: word_le_nat_alt unat_2p unat_drop5 not_le)
    from False have "hsize_loop (2 ^ k) s = Some (2 ^ k)"
      by (subst hsize_loop.simps) simp
    with lt Suc.prems show ?thesis by blast
  qed
qed

lemma hsize_loop_4:
  "\<exists>j. hsize_loop 4 s = Some (2 ^ j) \<and> 2 \<le> j \<and> j < 32 \<and> unat s div 32 < 2 ^ j
      \<and> (2 < j \<longrightarrow> 2 ^ (j - 1) \<le> unat s div 32)"
  using hsize_loop_pow[of "26" 2 s] by simp

lemma largest_pow2_le_eq: "2 ^ i \<le> n \<Longrightarrow> n < 2 ^ Suc i \<Longrightarrow> largest_pow2_le n = 2 ^ i"
proof (induction i arbitrary: n)
  case 0
  then show ?case by (subst largest_pow2_le.simps) simp
next
  case (Suc i)
  have "2 ^ i \<le> n div 2" "n div 2 < 2 ^ Suc i" using Suc.prems by simp_all
  from Suc.IH[OF this] have "largest_pow2_le (n div 2) = 2 ^ i" .
  moreover have "(2::nat) \<le> 2 ^ Suc i" by simp
  then have "\<not> n < 2" using Suc.prems(1) by linarith
  ultimately show ?case by (subst largest_pow2_le.simps) simp
qed

lemma clamp_size_bounds: "100 \<le> unat (clamp_size cs) \<and> unat (clamp_size cs) \<le> 1000000000"
  by (simp add: clamp_size_def Let_def MAXCACHESIZE_def MINCACHESIZE_def
      word_less_nat_alt word_le_nat_alt)

text \<open>What a successful \<open>init\<close> leaves.\<close>

lemma init_Some:
  assumes "init heap now c cachesize opts = Some (Inr (True, c'))"
  shows "size_c c' = clamp_size cachesize"
    and "\<exists>j. hsize c' = 2 ^ j \<and> 2 \<le> j \<and> j < 32 \<and> unat (size_c c') div 32 < 2 ^ j
          \<and> 2 ^ (j - 1) \<le> unat (size_c c') div 32"
    and "writer c' = hsize c'" and "oldest c' = size_c c'" and "unused c' = size_c c'"
    and "\<exists>mem. alloc heap (unat cachesize) = Some mem
           \<and> x c' = Some (store mem 0 (replicate (unat (size_c c')) 0))
           \<and> unat (size_c c') \<le> length mem"
    and "cycle_last_ratio c' = 0" and "cycle_start c' = now" and "cycle_ttl c' = cycle_ttl c"
    and "cache_motion c' = cache_motion c"
    and "options c' = (case opts of Some os \<Rightarrow> os
           | None \<Rightarrow> (options c)\<lparr>allow_resize := True,
                                   target_cycle_time := DEFAULT_TARGET_CYCLETIME\<rparr>)"
proof -
  obtain j where j: "hsize_loop 4 (clamp_size cachesize) = Some (2 ^ j)" "2 \<le> j" "j < 32"
      "unat (clamp_size cachesize) div 32 < 2 ^ j"
      "2 < j \<longrightarrow> 2 ^ (j - 1) \<le> unat (clamp_size cachesize) div 32"
    using hsize_loop_4[of "clamp_size cachesize"] by blast
  have low: "2 ^ (j - 1) \<le> unat (clamp_size cachesize) div 32"
  proof (cases "2 < j")
    case True with j show ?thesis by simp
  next
    case False
    with j have "j = 2" by simp
    moreover have "3 \<le> unat (clamp_size cachesize) div 32"
      using clamp_size_bounds[of cachesize] by arith
    ultimately show ?thesis by simp
  qed
  from assms j obtain mem where
    mem: "alloc heap (unat cachesize) = Some mem" "unat (clamp_size cachesize) \<le> length mem"
    and c': "c' = c\<lparr>x := Some (store mem 0 (replicate (unat (clamp_size cachesize)) 0)),
                   size_c := clamp_size cachesize, hsize := 2 ^ j,
                   writer := 2 ^ j, oldest := clamp_size cachesize, unused := clamp_size cachesize,
                   cycle_start := now, cycle_last_ratio := 0,
                   options := (case opts of
                       Some os \<Rightarrow> os
                     | None \<Rightarrow> (options c)\<lparr>allow_resize := True,
                                   target_cycle_time := DEFAULT_TARGET_CYCLETIME\<rparr>)\<rparr>"
    by (auto simp: init_def Let_def split: option.splits if_splits)
  show "size_c c' = clamp_size cachesize" by (simp add: c')
  show "\<exists>j. hsize c' = 2 ^ j \<and> 2 \<le> j \<and> j < 32 \<and> unat (size_c c') div 32 < 2 ^ j
          \<and> 2 ^ (j - 1) \<le> unat (size_c c') div 32"
    using j low by (intro exI[of _ j]) (simp add: c')
  show "writer c' = hsize c'" "oldest c' = size_c c'" "unused c' = size_c c'"
    "cycle_last_ratio c' = 0" "cycle_start c' = now" "cycle_ttl c' = cycle_ttl c"
    "cache_motion c' = cache_motion c"
    "options c' = (case opts of Some os \<Rightarrow> os
           | None \<Rightarrow> (options c)\<lparr>allow_resize := True,
                                   target_cycle_time := DEFAULT_TARGET_CYCLETIME\<rparr>)"
    by (simp_all add: c')
  show "\<exists>mem. alloc heap (unat cachesize) = Some mem
           \<and> x c' = Some (store mem 0 (replicate (unat (size_c c')) 0))
           \<and> unat (size_c c') \<le> length mem"
    using mem by (simp add: c')
qed

lemma store_zero_heap: "store (map zero_heap [0..<n]) 0 (replicate n 0) = replicate n 0"
  by (simp add: store_def)

lemma init_128: "init (Some zero_heap) 3 zero_cache 128 None = Some (Inr (True, c128))"
  by (simp add: init_def alloc_def clamp_size_def MAXCACHESIZE_def MINCACHESIZE_def
      hsize_loop.simps store_zero_heap c128_def zero_cache_def DEFAULT_TARGET_CYCLETIME_def)

lemma clamp_size_snap: "unat (clamp_size cs) = min (max (unat cs) 100) 1000000000"
  by (simp add: clamp_size_def Let_def MAXCACHESIZE_def MINCACHESIZE_def
      word_less_nat_alt word_le_nat_alt)

lemma init_heap_returns:
  "\<exists>r. init (Some g) now c cachesize opts = Some r
      \<and> (case r of Inl f \<Rightarrow> f = Memory_fault \<and> unat cachesize < 100
                  | Inr (ok, c') \<Rightarrow> ok \<and> 100 \<le> unat cachesize)"
proof -
  obtain j where j: "hsize_loop 4 (clamp_size cachesize) = Some (2 ^ j)"
    using hsize_loop_4[of "clamp_size cachesize"] by blast
  have "unat cachesize < unat (clamp_size cachesize) \<longleftrightarrow> unat cachesize < 100"
    unfolding clamp_size_snap by (auto simp: max_def)
  then show ?thesis using j by (simp add: init_def alloc_def Let_def)
qed

text \<open>
  Claim C6, as it is stated: after a successful initialisation the stored size is the
  requested size snapped into \<open>[100, 1000000000]\<close>, and \<open>hsize\<close> is the largest
  power of two not exceeding \<open>size/32\<close>, with a floor of 4.  A request of 128 bytes
  refutes the second half: \<open>size/32\<close> is 4, whose largest power of two is 4, and
  \<open>init\<close> leaves \<open>hsize = 8\<close>.
\<close>

theorem init_hsize_counterexample:
  "init (Some zero_heap) 3 zero_cache 128 None = Some (Inr (True, c128))
   \<and> unat (hsize c128) = 8
   \<and> max 4 (largest_pow2_le (unat (size_c c128) div 32)) = 4"
  by (simp add: init_128) (simp add: c128_def largest_pow2_le.simps)

text \<open>
  Claim C6, as amended: the clamping statements of \<open>init\<close> snap every request into
  \<open>[100, 1000000000]\<close>.  Whenever the allocation succeeds, \<open>init\<close> either overruns
  the block or returns 1.  It overruns the block exactly for the requests below 100,
  because the block is allocated with the request as it came and the size is snapped
  afterwards.  When it returns 1, the stored size is the requested size snapped into
  \<open>[100, 1000000000]\<close>, and \<open>hsize\<close> is twice the largest power of two not exceeding
  \<open>size/32\<close>, that is the smallest power of two that exceeds \<open>size/32\<close>.  The examples
  after it are a request of 50 bytes, which the clamping statements snap to 100, and a
  request of 2000000000 bytes, for which \<open>init\<close> stores the size 1000000000.
\<close>

theorem init_size_hsize:
  "unat (clamp_size cachesize) = min (max (unat cachesize) 100) 1000000000
   \<and> (\<exists>r. init (Some g) now c cachesize opts = Some r
      \<and> (case r of
            Inl f \<Rightarrow> f = Memory_fault \<and> unat cachesize < 100
          | Inr (ok, c') \<Rightarrow>
              ok \<and> 100 \<le> unat cachesize
              \<and> unat (size_c c') = min (max (unat cachesize) 100) 1000000000
              \<and> unat (hsize c') = 2 * largest_pow2_le (unat (size_c c') div 32)))"
proof -
  from init_heap_returns[of g now c cachesize opts] obtain r where
    r: "init (Some g) now c cachesize opts = Some r"
       "case r of Inl f \<Rightarrow> f = Memory_fault \<and> unat cachesize < 100
                | Inr (ok, c') \<Rightarrow> ok \<and> 100 \<le> unat cachesize" by blast
  have "\<exists>r. init (Some g) now c cachesize opts = Some r
      \<and> (case r of
            Inl f \<Rightarrow> f = Memory_fault \<and> unat cachesize < 100
          | Inr (ok, c') \<Rightarrow>
              ok \<and> 100 \<le> unat cachesize
              \<and> unat (size_c c') = min (max (unat cachesize) 100) 1000000000
              \<and> unat (hsize c') = 2 * largest_pow2_le (unat (size_c c') div 32))"
  proof (cases r)
    case (Inl f)
    with r show ?thesis by simp
  next
    case (Inr p)
    obtain ok c' where p: "p = (ok, c')" by (cases p)
    with Inr r have ok: "ok" "100 \<le> unat cachesize"
      and i: "init (Some g) now c cachesize opts = Some (Inr (True, c'))" by simp_all
    from init_Some(2)[OF i] obtain j where
      j: "hsize c' = 2 ^ j" "2 \<le> j" "j < 32" "unat (size_c c') div 32 < 2 ^ j"
         "2 ^ (j - 1) \<le> unat (size_c c') div 32" by blast
    have "Suc (j - 1) = j" using j by simp
    with j have "largest_pow2_le (unat (size_c c') div 32) = 2 ^ (j - 1)"
      by (intro largest_pow2_le_eq) simp_all
    moreover have "unat (hsize c') = 2 ^ j" using j by (simp add: unat_2p)
    moreover have "(2::nat) ^ j = 2 * 2 ^ (j - 1)" using j by (cases j) simp_all
    moreover have "unat (size_c c') = min (max (unat cachesize) 100) 1000000000"
      using init_Some(1)[OF i] by (simp add: clamp_size_snap)
    ultimately show ?thesis using r(1) Inr p ok by simp
  qed
  with clamp_size_snap[of cachesize] show ?thesis by blast
qed

theorem init_size_hsize_witness:
  "unat (clamp_size 50) = 100
   \<and> (\<exists>c'. init (Some zero_heap) 3 zero_cache 2000000000 None = Some (Inr (True, c'))
      \<and> unat (size_c c') = 1000000000 \<and> unat (hsize c') = 33554432)"
proof -
  from init_size_hsize[of 2000000000 zero_heap 3 zero_cache None] obtain r where
    r: "init (Some zero_heap) 3 zero_cache 2000000000 None = Some r"
       "case r of
            Inl f \<Rightarrow> f = Memory_fault \<and> unat (2000000000 :: uint32) < 100
          | Inr (ok, c') \<Rightarrow>
              ok \<and> 100 \<le> unat (2000000000 :: uint32)
              \<and> unat (size_c c') = min (max (unat (2000000000 :: uint32)) 100) 1000000000
              \<and> unat (hsize c') = 2 * largest_pow2_le (unat (size_c c') div 32)" by blast
  have l: "largest_pow2_le (1000000000 div 32) = 2 ^ 24"
    by (rule largest_pow2_le_eq) simp_all
  have "\<exists>c'. init (Some zero_heap) 3 zero_cache 2000000000 None = Some (Inr (True, c'))
      \<and> unat (size_c c') = 1000000000 \<and> unat (hsize c') = 33554432"
  proof (cases r)
    case (Inl f)
    with r(2) show ?thesis by simp
  next
    case (Inr p)
    obtain ok c' where p: "p = (ok, c')" by (cases p)
    with Inr r have "ok" "unat (size_c c') = 1000000000"
      "unat (hsize c') = 2 * largest_pow2_le (unat (size_c c') div 32)" by simp_all
    with l r(1) Inr p show ?thesis by simp
  qed
  moreover have "unat (clamp_size 50) = 100"
    using init_size_hsize[of 50 zero_heap 3 zero_cache None] by simp
  ultimately show ?thesis by blast
qed

text \<open>
  Claim C7: after every successful \<open>init\<close> the block that was allocated is exactly as
  long as the clamped \<open>size\<close>, also for requests below 100.  The source calls
  \<open>alloc\<close> with the requested size before it clamps it: for a request of 50 bytes the
  block has 50 bytes, \<open>size\<close> becomes 100, and \<open>byte_zero\<close> writes 100 bytes into
  the block.
\<close>

theorem init_small_request_overruns_block:
  "init (Some zero_heap) 3 zero_cache 50 None = Some (Inl Memory_fault)
   \<and> map_option length (alloc (Some zero_heap) (unat (50 :: uint32))) = Some 50
   \<and> clamp_size 50 = 100"
  by (simp add: init_def alloc_def clamp_size_def MAXCACHESIZE_def MINCACHESIZE_def
      hsize_loop.simps)

text \<open>
  Claim C10: when the allocation fails, \<open>init\<close> reports failure and leaves the cache as
  it was, whether it is called directly, through \<open>cache_t_init\<close>, through
  \<open>cache_t_new\<close> (which then returns the null handle) or by \<open>check_for_resize\<close>,
  which leaves the arena buffer, its content, the size and the cursors unchanged.
\<close>

theorem init_alloc_failure_keeps_state:
  "init None now c cachesize opts = Some (Inr (False, c))
   \<and> cache_t_init None now (Some c) cachesize opts = Some (Inr (False, Some c))
   \<and> cache_t_new True None now cachesize opts = Some (Inr None)
   \<and> (\<exists>b c'. check_for_resize (e\<lparr>heap_env := None\<rparr>) c = Some (Inr (b, c'))
              \<and> arena_state c' = arena_state c)"
  by (auto simp: init_def alloc_def cache_t_init_def cache_t_new_def check_for_resize_def
      Let_def arena_state_def split: prod.splits option.splits)


section \<open>Statistics and the time override\<close>

text \<open>The defining equations of the model, for evaluating it on concrete inputs.\<close>

lemmas model_defs = cache_t_set.simps set_loop.simps append_entry_def get4_def set4_def poke_def
  evict_def hash_def cycle_stats_add_ttl_def check_for_resize_def should_resize_def
  double_to_uint_def clamp_size_def MAXKEYLEN_def MAXDATALEN_def MAXCACHESIZE_def MINCACHESIZE_def
  DEFAULT_TARGET_CYCLETIME_def
  tai_add_def tai_uint_def tai_sub_def tai_less_def tai_approx_def taia_sub_def taia_approx_def
  uint32_pack_def uint32_unpack_def tai_pack_def tai_unpack_def load_def store_def
  cache_t_get_def cache_t_get_trace_def get_loop.simps get_match_def
  init_def alloc_def hsize_loop.simps cache_t_init_def cache_t_new_def
  handle_of_def returned_def stats_of_def clock_at_def env_at_def c128_def zero_cache_def Let_def

text \<open>One step of \<open>normalise\<close>, for evaluating \<open>round_double\<close>.\<close>

lemma normalise_unfold:
  "normalise k m e =
     (if k = 0 then (m, e)
      else if m < 2 ^ 52 then normalise (k - 1) (2 * m) (e - 1)
      else if 2 ^ 53 \<le> m then normalise (k - 1) (m / 2) (e + 1)
      else (m, e))"
  by (cases k) simp_all


text \<open>The rounding is visible in the new size: for a cache of 3200 bytes, a target of 58
  seconds and a cycle of 55 seconds, the product \<open>3200 * (58 / 55) * 1.1\<close> is 3712 in
  exact arithmetic and \<open>3711.9999999999995\<close> in doubles, which the conversion cuts
  down to 3711.\<close>

lemma should_resize_rounds:
  "should_resize 0 (c128\<lparr>size_c := 3200,
       options := (options c128)\<lparr>target_cycle_time := 58\<rparr>\<rparr>) 55
     = (4749250516136159 / 4503599627370496, 3711, False)"
  by (simp add: should_resize_def round_double_def normalise_unfold double_to_uint_def
      clamp_size_def MAXCACHESIZE_def MINCACHESIZE_def c128_def zero_cache_def Let_def)

text \<open>
  Claim C8: every re-initialisation of an existing cache clears the cycle statistics
  \<open>{count, total, min, max}\<close>.  \<open>init\<close> does not touch them (the function
  \<open>cycle_stats_clear_ttl\<close> is never called): a cache of 128 bytes that has stored one
  entry with a TTL of 60 seconds still counts that entry after \<open>cache_t_init\<close>.
\<close>

theorem reinit_keeps_ttl_stats:
  "stats_of (cache_t_init (Some zero_heap) 5
      (handle_of (cache_t_set (clock_at 4611686018427388914) (Some c128) [107] [118] 60))
      128 None)
   = Some \<lparr>count_ttl = 1, total_ttl = 60, max_ttl = 60, min_ttl = 60\<rparr>"
  by (simp add: model_defs)

text \<open>
  Claim C9: a non-null \<open>stamp\<close> is used by \<open>cache_t_get\<close> as the current time.  The
  source reads \<open>tai_now\<close> whatever \<open>stamp\<close> is.  An entry stored with a TTL of 60
  seconds is a miss when the clock is 1000 seconds later although the \<open>stamp\<close> is the
  second of the insertion, and a hit with a TTL of 60 when the clock still shows that
  second although the \<open>stamp\<close> is 1000 seconds later.
\<close>

theorem get_ignores_stamp:
  "cache_t_get (handle_of (cache_t_set (clock_at 4611686018427388914) (Some c128) [107] [118] 60))
      [107] (Some 4611686018427388914) 4611686018427389914 = Inr None
   \<and> cache_t_get (handle_of (cache_t_set (clock_at 4611686018427388914) (Some c128) [107] [118] 60))
      [107] (Some 4611686018427389914) 4611686018427388914 = Inr (Some ([118], 1, 60))"
  by (simp add: model_defs)


section \<open>Bytes\<close>

lemma uint32_unpack_pack: "uint32_unpack (uint32_pack u) = u"
  unfolding uint32_unpack_def uint32_pack_def
  apply simp
  apply (rule bit_word_eqI)
  apply (simp add: bit_simps cong: conj_cong)
  subgoal for n by (cases "bit u n") (simp_all, arith)
  done

lemma tai_unpack_pack: "tai_unpack (tai_pack t) = t"
proof (rule bit_word_eqI)
  fix n assume n: "n < LENGTH(64)"
  then consider "n < 8" | "8 \<le> n" "n < 16" | "16 \<le> n" "n < 24" | "24 \<le> n" "n < 32"
    | "32 \<le> n" "n < 40" | "40 \<le> n" "n < 48" | "48 \<le> n" "n < 56" | "56 \<le> n" "n < 64"
    by fastforce
  then show "bit (tai_unpack (tai_pack t)) n = bit t n"
    unfolding tai_unpack_def tai_pack_def
    by cases (simp_all add: bit_simps less_diff_conv2)
qed

lemma length_uint32_pack [simp]: "length (uint32_pack u) = 4"
  by (simp add: uint32_pack_def)

lemma length_tai_pack [simp]: "length (tai_pack t) = 8"
  by (simp add: tai_pack_def)

lemma length_store [simp]: "p + length bs \<le> length a \<Longrightarrow> length (store a p bs) = length a"
  by (simp add: store_def)

lemma nth_store:
  "p + length bs \<le> length a \<Longrightarrow> i < length a \<Longrightarrow>
   store a p bs ! i = (if p \<le> i \<and> i < p + length bs then bs ! (i - p) else a ! i)"
  by (auto simp: store_def nth_append)

lemma load_store_same:
  "p + length bs \<le> length a \<Longrightarrow> load (store a p bs) p (length bs) = bs"
  by (simp add: load_def store_def)

lemma agree_refl [simp]: "agree a a lo hi"
  by (simp add: agree_def)

lemma agree_sym: "agree a a' lo hi \<Longrightarrow> agree a' a lo hi"
  by (simp add: agree_def)

lemma agree_trans: "agree a a' lo hi \<Longrightarrow> agree a' a'' lo hi \<Longrightarrow> agree a a'' lo hi"
  by (simp add: agree_def)

lemma agree_mono: "agree a a' lo hi \<Longrightarrow> lo \<le> lo' \<Longrightarrow> hi' \<le> hi \<Longrightarrow> agree a a' lo' hi'"
  by (simp add: agree_def)

lemma agree_length: "agree a a' lo hi \<Longrightarrow> length a' = length a"
  by (simp add: agree_def)

lemma agree_store:
  "p + length bs \<le> length a \<Longrightarrow> hi \<le> p \<or> p + length bs \<le> lo \<Longrightarrow> agree a (store a p bs) lo hi"
  by (auto simp: agree_def nth_store)

lemma load_agree:
  "agree a a' lo hi \<Longrightarrow> lo \<le> q \<Longrightarrow> q + n \<le> hi \<Longrightarrow> load a' q n = load a q n"
  by (auto simp: agree_def load_def intro!: nth_equalityI)

lemma rd4_agree: "agree a a' lo hi \<Longrightarrow> lo \<le> q \<Longrightarrow> q + 4 \<le> hi \<Longrightarrow> rd4 a' q = rd4 a q"
  by (simp add: rd4_def load_agree)

lemma rd4_store_same: "p + 4 \<le> length a \<Longrightarrow> rd4 (store a p (uint32_pack v)) p = v"
  using load_store_same[of p "uint32_pack v" a] by (simp add: rd4_def uint32_unpack_pack)


section \<open>Entries and regions\<close>

lemma fields_agree:
  assumes "agree a a' (p + 4) (p + elen a p)"
  shows "klen a' p = klen a p" "dlen a' p = dlen a p" "elen a' p = elen a p"
        "key_at a' p = key_at a p" "data_at a' p = data_at a p" "expire_at a' p = expire_at a p"
proof -
  have e: "20 \<le> elen a p" by (simp add: elen_def)
  show k: "klen a' p = klen a p"
    using rd4_agree[OF assms, of "p + 4"] e by (simp add: klen_def)
  show d: "dlen a' p = dlen a p"
    using rd4_agree[OF assms, of "p + 8"] e by (simp add: dlen_def)
  show "elen a' p = elen a p" using k d by (simp add: elen_def)
  show "key_at a' p = key_at a p"
    using load_agree[OF assms, of "p + 20" "klen a p"] k by (simp add: key_at_def elen_def)
  show "data_at a' p = data_at a p"
    using load_agree[OF assms, of "p + 20 + klen a p" "dlen a p"] k d
    by (simp add: data_at_def elen_def)
  show "expire_at a' p = expire_at a p"
    using load_agree[OF assms, of "p + 12" 8] e by (simp add: expire_at_def)
qed

lemma elen_ge20 [simp]: "20 \<le> elen a p"
  by (simp add: elen_def)

lemma region_refl [simp]: "region a p p = Some []"
  by (subst region.simps) simp

lemma region_le: "region a p q = Some ps \<Longrightarrow> p \<le> q"
  by (subst (asm) region.simps) (auto split: if_splits)

lemma region_Cons:
  "region a p q = Some (e # es) \<longleftrightarrow> e = p \<and> p \<noteq> q \<and> p + elen a p \<le> q \<and> region a (p + elen a p) q = Some es"
  by (subst region.simps) auto

lemma region_Nil: "region a p q = Some [] \<longleftrightarrow> p = q"
  by (subst region.simps) auto

lemma region_lt: "p < q \<Longrightarrow> region a p q = Some ps \<Longrightarrow> \<exists>es. ps = p # es"
  by (cases ps) (auto simp: region_Nil region_Cons)

lemma region_bounds:
  "region a p q = Some ps \<Longrightarrow> e \<in> set ps \<Longrightarrow> p \<le> e \<and> e + elen a e \<le> q"
proof (induction ps arbitrary: p)
  case Nil then show ?case by simp
next
  case (Cons e' es)
  from Cons.prems(1) have h: "e' = p" "p + elen a p \<le> q" "region a (p + elen a p) q = Some es"
    by (simp_all add: region_Cons)
  show ?case
  proof (cases "e = e'")
    case True with h show ?thesis by simp
  next
    case False
    with Cons.prems(2) have "e \<in> set es" by simp
    from Cons.IH[OF h(3) this] show ?thesis by simp
  qed
qed

lemma region_sep:
  "region a p q = Some ps \<Longrightarrow> e \<in> set ps \<Longrightarrow> e' \<in> set ps \<Longrightarrow> e \<noteq> e'
   \<Longrightarrow> e + elen a e \<le> e' \<or> e' + elen a e' \<le> e"
proof (induction ps arbitrary: p)
  case Nil then show ?case by simp
next
  case (Cons f es)
  from Cons.prems(1) have h: "f = p" "p + elen a p \<le> q" "region a (p + elen a p) q = Some es"
    by (simp_all add: region_Cons)
  show ?case
  proof (cases "e = f")
    case True
    with Cons.prems have "e' \<in> set es" by auto
    from region_bounds[OF h(3) this] True h show ?thesis by simp
  next
    case False
    then have e: "e \<in> set es" using Cons.prems by simp
    show ?thesis
    proof (cases "e' = f")
      case True
      from region_bounds[OF h(3) e] True h show ?thesis by simp
    next
      case False
      then have "e' \<in> set es" using Cons.prems by simp
      from Cons.IH[OF h(3) e this Cons.prems(4)] show ?thesis .
    qed
  qed
qed

lemma region_distinct: "region a p q = Some ps \<Longrightarrow> distinct ps"
proof (induction ps arbitrary: p)
  case Nil then show ?case by simp
next
  case (Cons f es)
  from Cons.prems(1) have h: "f = p" "p + elen a p \<le> q" "region a (p + elen a p) q = Some es"
    by (simp_all add: region_Cons)
  have "f \<notin> set es"
  proof
    assume "f \<in> set es"
    from region_bounds[OF h(3) this] h have "p + elen a p \<le> p" by simp
    moreover have "20 \<le> elen a p" by simp
    ultimately show False by linarith
  qed
  with Cons.IH[OF h(3)] show ?case by simp
qed

text \<open>A region depends only on the length fields of its entries.\<close>

lemma region_cong:
  "region a p q = Some ps \<Longrightarrow> (\<And>e. e \<in> set ps \<Longrightarrow> elen a' e = elen a e)
   \<Longrightarrow> region a' p q = Some ps"
proof (induction ps arbitrary: p)
  case Nil then show ?case by (simp add: region_Nil)
next
  case (Cons f es)
  from Cons.prems(1) have h: "f = p" "p \<noteq> q" "p + elen a p \<le> q" "region a (p + elen a p) q = Some es"
    by (simp_all add: region_Cons)
  have "elen a' p = elen a p" using Cons.prems(2)[of f] h by simp
  moreover have "region a' (p + elen a p) q = Some es"
    using Cons.IH[OF h(4)] Cons.prems(2) by simp
  ultimately show ?case using h by (simp add: region_Cons)
qed

lemma region_snoc:
  "region a p w = Some ps \<Longrightarrow> region a p (w + elen a w) = Some (ps @ [w])"
proof (induction ps arbitrary: p)
  case Nil
  then have "p = w" by (simp add: region_Nil)
  moreover have "0 < elen a w" using elen_ge20[of a w] by linarith
  ultimately show ?case by (simp add: region_Cons)
next
  case (Cons f es)
  from Cons.prems(1) have h: "f = p" "p \<noteq> w" "p + elen a p \<le> w" "region a (p + elen a p) w = Some es"
    by (simp_all add: region_Cons)
  from Cons.IH[OF h(4)] h show ?case by (simp add: region_Cons)
qed


section \<open>Walks over the XOR links\<close>

lemma word_xor_eq_0: "(u::uint32) XOR v = 0 \<longleftrightarrow> u = v"
  by (metis xor.right_neutral xor.left_commute xor_self_eq)

lemma walk_cong:
  "(\<And>p. p \<in> set ps \<Longrightarrow> rd4 a' p = rd4 a p) \<Longrightarrow> walk a' prev cur ps = walk a prev cur ps"
  by (induction ps arbitrary: prev cur) simp_all

lemma walk_append1:
  "walk a prev cur (ps @ [e]) \<Longrightarrow> rd4 a e = (if ps = [] then prev else word_of_nat (last ps))"
proof (induction ps arbitrary: prev cur)
  case Nil
  then show ?case by (simp add: word_xor_eq_0)
next
  case (Cons p ps)
  then have "walk a (word_of_nat p) (prev XOR rd4 a p) (ps @ [e])" by simp
  from Cons.IH[OF this] show ?case by simp
qed

text \<open>Removing the last entry of a chain: its predecessor's link is XORed with its
  offset.\<close>

lemma walk_drop_last:
  assumes "walk a prev cur (ps @ [e])" and "ps \<noteq> []" and "distinct ps"
    and "rd4 a' (last ps) = rd4 a (last ps) XOR word_of_nat e"
    and "\<And>p. p \<in> set ps \<Longrightarrow> p \<noteq> last ps \<Longrightarrow> rd4 a' p = rd4 a p"
  shows "walk a' prev cur ps"
  using assms
proof (induction ps arbitrary: prev cur)
  case Nil then show ?case by simp
next
  case (Cons p ps)
  show ?case
  proof (cases "ps = []")
    case True
    with Cons.prems(1) have "cur = word_of_nat p" "prev XOR rd4 a p = word_of_nat e" by simp_all
    moreover have "rd4 a' p = rd4 a p XOR word_of_nat e" using Cons.prems(4) True by simp
    ultimately show ?thesis using True by (simp add: xor.assoc[symmetric])
  next
    case False
    then have l: "last (p # ps) = last ps" by simp
    have pl: "p \<noteq> last ps" using Cons.prems(3) False by auto
    have "walk a (word_of_nat p) (prev XOR rd4 a p) (ps @ [e])" "cur = word_of_nat p"
      using Cons.prems(1) by simp_all
    moreover have "rd4 a' p = rd4 a p" using Cons.prems(5)[of p] pl l by simp
    moreover have "walk a' (word_of_nat p) (prev XOR rd4 a p) ps"
    proof (rule Cons.IH)
      show "walk a (word_of_nat p) (prev XOR rd4 a p) (ps @ [e])" by fact
      show "ps \<noteq> []" by fact
      show "distinct ps" using Cons.prems(3) by simp
      show "rd4 a' (last ps) = rd4 a (last ps) XOR word_of_nat e" using Cons.prems(4) l by simp
      show "\<And>q. q \<in> set ps \<Longrightarrow> q \<noteq> last ps \<Longrightarrow> rd4 a' q = rd4 a q"
        using Cons.prems(5) l by simp
    qed
    ultimately show ?thesis by simp
  qed
qed

text \<open>Putting a new entry \<open>w\<close> in front of a chain that starts at the head slot
  \<open>b\<close>.\<close>

lemma walk_push:
  assumes "walk a b h ps" and "distinct ps"
    and "rd4 a' w = h XOR b"
    and "ps \<noteq> [] \<Longrightarrow> rd4 a' (hd ps) = rd4 a (hd ps) XOR b XOR word_of_nat w"
    and "\<And>p. p \<in> set ps \<Longrightarrow> p \<noteq> hd ps \<Longrightarrow> rd4 a' p = rd4 a p"
  shows "walk a' b (word_of_nat w) (w # ps)"
proof (cases ps)
  case Nil
  with assms(1) have "h = 0" by simp
  with Nil assms(3) show ?thesis by simp
next
  case (Cons p rest)
  with assms(1) have h: "h = word_of_nat p" "walk a (word_of_nat p) (b XOR rd4 a p) rest" by simp_all
  have "rd4 a' p = rd4 a p XOR b XOR word_of_nat w" using assms(4) Cons by simp
  then have "word_of_nat w XOR rd4 a' p = b XOR rd4 a p"
    by (simp add: xor.commute xor.left_commute)
  moreover have "walk a' (word_of_nat p) (b XOR rd4 a p) rest = walk a (word_of_nat p) (b XOR rd4 a p) rest"
  proof (rule walk_cong)
    fix q assume "q \<in> set rest"
    moreover from this have "q \<noteq> p" using assms(2) Cons by auto
    ultimately show "rd4 a' q = rd4 a q" using assms(5)[of q] Cons by simp
  qed
  moreover have "b XOR rd4 a' w = h" using assms(3) by (simp add: xor.commute xor.left_commute)
  ultimately show ?thesis using h Cons by simp
qed


section \<open>Writes into the arena\<close>

lemma chain_list_bucket: "chain_list a hs L b = filter (\<lambda>p. bucket hs (key_at a p) = b) (rev L)"
  by (simp add: chain_list_def bucket_def)

lemma hash_bucket: "hash c key = bucket (hsize c) key"
  by (simp add: hash_def bucket_def)

lemma bucket_le: "4 \<le> unat hs \<Longrightarrow> unat (bucket hs key) + 4 \<le> unat hs"
proof -
  assume h: "4 \<le> unat hs"
  then have "4 \<le> hs" by (simp add: word_le_nat_alt)
  then have u: "unat (hs - 4) = unat hs - 4" by (simp add: unat_sub)
  have "bucket hs key \<le> hs - 4" unfolding bucket_def by (rule word_and_le1)
  then have "unat (bucket hs key) \<le> unat hs - 4" using u by (simp add: word_le_nat_alt)
  with h show ?thesis by linarith
qed

lemma bucket_aligned: "unat (bucket hs key) mod 4 = 0"
proof -
  have "take_bit 2 (bucket hs key) = 0"
    by (intro bit_word_eqI) (simp add: bucket_def bit_simps)
  then have "unat (bucket hs key mod 4) = 0" by (simp add: take_bit_eq_mod)
  then show ?thesis by (simp add: unat_mod)
qed

lemma bucket_lt: "4 \<le> unat hs \<Longrightarrow> bucket hs key < hs"
  using bucket_le[of hs key] by (simp add: word_less_nat_alt)

lemma link_write:
  assumes sep: "separated a lo hi L" and hi: "hi \<le> length a" "lo \<le> hi"
    and pv: "pv \<in> set L \<or> pv + 4 \<le> lo"
  shows "length (store a pv (uint32_pack v)) = length a"
    and "rd4 (store a pv (uint32_pack v)) pv = v"
    and "\<And>f. f \<in> set L \<Longrightarrow> agree a (store a pv (uint32_pack v)) (f + 4) (f + elen a f)"
    and "\<And>f. f \<in> set L \<Longrightarrow> f \<noteq> pv \<Longrightarrow> rd4 (store a pv (uint32_pack v)) f = rd4 a f"
    and "\<And>b. b + 4 \<le> lo \<Longrightarrow> b + 4 \<le> pv \<or> pv + 4 \<le> b
            \<Longrightarrow> rd4 (store a pv (uint32_pack v)) b = rd4 a b"
proof -
  have bounds: "\<And>f. f \<in> set L \<Longrightarrow> lo \<le> f \<and> f + elen a f \<le> hi"
    using sep by (simp add: separated_def)
  have pairs: "\<And>f g. f \<in> set L \<Longrightarrow> g \<in> set L \<Longrightarrow> f \<noteq> g
      \<Longrightarrow> f + elen a f \<le> g \<or> g + elen a g \<le> f"
    using sep by (simp add: separated_def)
  have in_range: "pv + 4 \<le> length a"
  proof (cases "pv \<in> set L")
    case True
    from bounds[OF this] elen_ge20[of a pv] hi show ?thesis by linarith
  next
    case False with pv hi show ?thesis by linarith
  qed
  then have len: "pv + length (uint32_pack v) \<le> length a" by simp
  show "length (store a pv (uint32_pack v)) = length a" using len by simp
  show "rd4 (store a pv (uint32_pack v)) pv = v" using in_range by (rule rd4_store_same)
  show "agree a (store a pv (uint32_pack v)) (f + 4) (f + elen a f)" if f: "f \<in> set L" for f
  proof (rule agree_store[OF len])
    show "f + elen a f \<le> pv \<or> pv + length (uint32_pack v) \<le> f + 4"
    proof (cases "pv \<in> set L")
      case True
      show ?thesis
      proof (cases "f = pv")
        case True then show ?thesis by simp
      next
        case False
        from pairs[OF f True False] elen_ge20[of a pv] show ?thesis by auto
      qed
    next
      case False
      with pv bounds[OF f] show ?thesis by simp
    qed
  qed
  show "rd4 (store a pv (uint32_pack v)) f = rd4 a f" if f: "f \<in> set L" and ne: "f \<noteq> pv" for f
  proof -
    have "f + 4 \<le> pv \<or> pv + 4 \<le> f"
    proof (cases "pv \<in> set L")
      case True
      from pairs[OF f True ne] elen_ge20[of a pv] elen_ge20[of a f] show ?thesis by linarith
    next
      case False
      with pv bounds[OF f] show ?thesis by simp
    qed
    then have "agree a (store a pv (uint32_pack v)) f (f + 4)"
      by (intro agree_store[OF len]) auto
    then show ?thesis by (rule rd4_agree) simp_all
  qed
  show "rd4 (store a pv (uint32_pack v)) b = rd4 a b"
    if "b + 4 \<le> lo" "b + 4 \<le> pv \<or> pv + 4 \<le> b" for b
  proof -
    have "agree a (store a pv (uint32_pack v)) b (b + 4)"
      using that by (intro agree_store[OF len]) auto
    then show ?thesis by (rule rd4_agree) simp_all
  qed
qed

lemma separated_cong:
  "separated a lo hi L \<Longrightarrow> (\<And>f. f \<in> set L \<Longrightarrow> elen a' f = elen a f) \<Longrightarrow> separated a' lo hi L"
  by (simp add: separated_def)

lemma separated_tl: "separated a lo hi (e # es) \<Longrightarrow> separated a lo hi es"
  by (simp add: separated_def)

lemma chain_list_cong:
  "(\<And>f. f \<in> set L \<Longrightarrow> key_at a' f = key_at a f) \<Longrightarrow> chain_list a' hs L b = chain_list a hs L b"
  unfolding chain_list_def by (rule filter_cong) simp_all

lemma chain_list_Cons:
  "chain_list a hs (e # es) b =
     chain_list a hs es b @ (if bucket hs (key_at a e) = b then [e] else [])"
  by (simp add: chain_list_bucket)

lemma chain_list_snoc:
  "chain_list a hs (L @ [w]) b =
     (if bucket hs (key_at a w) = b then [w] else []) @ chain_list a hs L b"
  by (simp add: chain_list_bucket)

lemma chain_list_subset: "set (chain_list a hs L b) \<subseteq> set L"
  by (auto simp: chain_list_def)

lemma chain_list_distinct: "distinct L \<Longrightarrow> distinct (chain_list a hs L b)"
  by (simp add: chain_list_def)

lemma chain_list_bucket_of: "f \<in> set (chain_list a hs L b) \<Longrightarrow> bucket hs (key_at a f) = b"
  by (simp add: chain_list_bucket)

lemma aligned_apart:
  "unat (b::uint32) mod 4 = 0 \<Longrightarrow> unat (b'::uint32) mod 4 = 0 \<Longrightarrow> b \<noteq> b'
   \<Longrightarrow> unat b + 4 \<le> unat b' \<or> unat b' + 4 \<le> unat b"
proof -
  assume a: "unat b mod 4 = 0" "unat b' mod 4 = 0" "b \<noteq> b'"
  then have "unat b \<noteq> unat b'" by (simp add: word_unat_eq_iff)
  with a show ?thesis by presburger
qed

lemma unat_of_nat32: "n \<le> 1000000000 \<Longrightarrow> unat (word_of_nat n :: uint32) = n"
  by (simp add: unat_of_nat)

lemma separated_bounds: "separated a lo hi L \<Longrightarrow> f \<in> set L \<Longrightarrow> lo \<le> f \<and> f + elen a f \<le> hi"
  unfolding separated_def by blast

lemma separated_distinct: "separated a lo hi L \<Longrightarrow> distinct L"
  unfolding separated_def by blast

lemma chains_okD:
  "chains_ok a hs L \<Longrightarrow> b < hs \<Longrightarrow> unat b mod 4 = 0
   \<Longrightarrow> walk a b (rd4 a (unat b)) (chain_list a hs L b)"
  unfolding chains_ok_def by simp

text \<open>Eviction on the arena: the link cell that the oldest entry \<open>e\<close> names is its
  predecessor in its chain (an entry or the head slot), and XORing that cell with \<open>e\<close>
  takes \<open>e\<close> off the chain.\<close>

lemma evict_arena:
  assumes inv: "arena_inv a hs hi (e # es)"
  defines "pv \<equiv> unat (rd4 a e)"
  defines "a' \<equiv> store a pv (uint32_pack (rd4 a pv XOR word_of_nat e))"
  shows "pv + 4 \<le> hi" and "arena_inv a' hs hi es" and "length a' = length a"
    and "\<And>f. f \<in> set (e # es) \<Longrightarrow> agree a a' (f + 4) (f + elen a f)"
proof -
  let ?lo = "unat hs"
  let ?L = "e # es"
  from inv have hs: "4 \<le> ?lo" "?lo mod 4 = 0" and hi: "hi \<le> length a" "hi \<le> 1000000000"
    and sep: "separated a ?lo hi ?L" and ch: "chains_ok a hs ?L"
    by (simp_all add: arena_inv_def)
  have bounds: "\<And>f. f \<in> set ?L \<Longrightarrow> ?lo \<le> f \<and> f + elen a f \<le> hi"
    using separated_bounds[OF sep] .
  have lohi: "?lo \<le> hi" using bounds[of e] by simp
  define b0 where "b0 = bucket hs (key_at a e)"
  define C where "C = chain_list a hs es b0"
  have b0: "b0 < hs" "unat b0 mod 4 = 0" "unat b0 + 4 \<le> ?lo"
    using bucket_lt[OF hs(1)] bucket_aligned bucket_le[OF hs(1)] by (simp_all add: b0_def)
  have CL: "chain_list a hs ?L b0 = C @ [e]" by (simp add: chain_list_Cons C_def b0_def)
  have w0: "walk a b0 (rd4 a (unat b0)) (C @ [e])"
    using chains_okD[OF ch b0(1,2)] CL by simp
  have Csub: "set C \<subseteq> set es" unfolding C_def by (rule chain_list_subset)
  have Cdist: "distinct C" unfolding C_def using separated_distinct[OF sep] by (intro chain_list_distinct) simp
  have link: "rd4 a e = (if C = [] then b0 else word_of_nat (last C))"
    using walk_append1[OF w0] .
  have pv_cases: "(C = [] \<and> pv = unat b0) \<or> (C \<noteq> [] \<and> pv = last C \<and> pv \<in> set es)"
  proof (cases "C = []")
    case True then show ?thesis using link by (simp add: pv_def)
  next
    case False
    then have l: "last C \<in> set es" using Csub by auto
    then have "last C \<le> 1000000000" using bounds[of "last C"] hi by simp
    then have "unat (word_of_nat (last C) :: uint32) = last C" by (rule unat_of_nat32)
    then show ?thesis using False link l by (simp add: pv_def)
  qed
  have pv: "pv \<in> set ?L \<or> pv + 4 \<le> ?lo" using pv_cases b0 by auto
  note lw = link_write[OF sep hi(1) lohi pv, where v = "rd4 a pv XOR word_of_nat e", folded a'_def]
  show "length a' = length a" by (rule lw(1))
  show ag: "\<And>f. f \<in> set ?L \<Longrightarrow> agree a a' (f + 4) (f + elen a f)" by (rule lw(3))
  show "pv + 4 \<le> hi"
  proof (cases "C = []")
    case True
    with pv_cases b0 lohi show ?thesis by simp
  next
    case False
    with pv_cases have "pv \<in> set ?L" by auto
    from bounds[OF this] elen_ge20[of a pv] show ?thesis by linarith
  qed
  have el: "\<And>f. f \<in> set ?L \<Longrightarrow> elen a' f = elen a f" using fields_agree(3)[OF ag] .
  have keys: "\<And>f. f \<in> set ?L \<Longrightarrow> key_at a' f = key_at a f" using fields_agree(4)[OF ag] .
  have sep': "separated a' ?lo hi es"
    using separated_cong[OF separated_tl[OF sep], of a'] el by simp
  have "chains_ok a' hs es"
    unfolding chains_ok_def
  proof (intro allI impI)
    fix b :: uint32 assume b: "b < hs" "unat b mod 4 = 0"
    then have b4: "unat b + 4 \<le> ?lo" using hs by (simp add: word_less_nat_alt) presburger
    have same: "chain_list a' hs es b = chain_list a hs es b"
      using keys by (intro chain_list_cong) simp
    show "walk a' b (rd4 a' (unat b)) (chain_list a' hs es b)"
    proof (cases "b = b0")
      case True
      show ?thesis
      proof (cases "C = []")
        case True
        with pv_cases have p: "pv = unat b0" by auto
        from w0 True have "rd4 a (unat b0) = word_of_nat e" by simp
        then have "rd4 a' (unat b0) = 0" using lw(2) p by simp
        then show ?thesis using same \<open>b = b0\<close> True by (simp add: C_def)
      next
        case False
        with pv_cases have p: "pv = last C" "pv \<in> set es" by auto
        have "?lo \<le> pv" using bounds[of pv] p by simp
        then have hd_same: "rd4 a' (unat b0) = rd4 a (unat b0)" using b0 by (intro lw(5)) simp_all
        have "walk a' b0 (rd4 a (unat b0)) C"
        proof (rule walk_drop_last[OF w0 False Cdist])
          show "rd4 a' (last C) = rd4 a (last C) XOR word_of_nat e" using lw(2) p by simp
          show "\<And>q. q \<in> set C \<Longrightarrow> q \<noteq> last C \<Longrightarrow> rd4 a' q = rd4 a q"
            using Csub p by (intro lw(4)) auto
        qed
        then show ?thesis using same \<open>b = b0\<close> hd_same by (simp add: C_def)
      qed
    next
      case False
      have CLb: "chain_list a hs ?L b = chain_list a hs es b"
        using False by (simp add: chain_list_Cons b0_def)
      have wb: "walk a b (rd4 a (unat b)) (chain_list a hs es b)"
        using chains_okD[OF ch b] CLb by simp
      have apart: "unat b + 4 \<le> unat b0 \<or> unat b0 + 4 \<le> unat b"
        using aligned_apart[OF b(2) b0(2) False] .
      have hd_same: "rd4 a' (unat b) = rd4 a (unat b)"
      proof (rule lw(5)[OF b4])
        show "unat b + 4 \<le> pv \<or> pv + 4 \<le> unat b"
          using pv_cases apart bounds[of pv] b4 by auto
      qed
      have "walk a' b (rd4 a (unat b)) (chain_list a hs es b) = walk a b (rd4 a (unat b)) (chain_list a hs es b)"
      proof (rule walk_cong)
        fix q assume q: "q \<in> set (chain_list a hs es b)"
        then have qes: "q \<in> set es" using chain_list_subset by blast
        have "q \<noteq> pv"
        proof
          assume "q = pv"
          with pv_cases qes bounds[of q] b0 have "C \<noteq> []" "pv = last C" by auto
          then have "pv \<in> set C" by simp
          then have "bucket hs (key_at a pv) = b0" unfolding C_def by (rule chain_list_bucket_of)
          moreover have "bucket hs (key_at a q) = b" using q by (rule chain_list_bucket_of)
          ultimately show False using \<open>q = pv\<close> False by simp
        qed
        then show "rd4 a' q = rd4 a q" using qes by (intro lw(4)) simp_all
      qed
      then show ?thesis using wb same hd_same by simp
    qed
  qed
  then show "arena_inv a' hs hi es"
    using hs hi sep' lw(1) by (simp add: arena_inv_def)
qed

lemma load_store_disj:
  "p + length bs \<le> length a \<Longrightarrow> q + n \<le> p \<or> p + length bs \<le> q
   \<Longrightarrow> load (store a p bs) q n = load a q n"
  using agree_store[of p bs a "q + n" q] load_agree[of a "store a p bs" q "q + n" q n] by auto

lemma load_store_eq:
  "p + length bs \<le> length a \<Longrightarrow> n = length bs \<Longrightarrow> load (store a p bs) p n = bs"
  by (simp add: load_store_same)

lemma agree_store2:
  "agree a a' lo hi \<Longrightarrow> p + length bs \<le> length a' \<Longrightarrow> hi \<le> p \<or> p + length bs \<le> lo
   \<Longrightarrow> agree a (store a' p bs) lo hi"
  using agree_trans[of a a' lo hi "store a' p bs"] agree_store[of p bs a' hi lo] by simp

lemma write_entry_props:
  assumes fit: "w + 20 + length key + length data \<le> length a"
    and small: "length key \<le> 1000000000" "length data \<le> 1000000000"
  shows "length (write_entry a w link key data expire) = length a"
    and "agree a (write_entry a w link key data expire) 0 w"
    and "agree a (write_entry a w link key data expire) (w + 20 + length key + length data) (length a)"
    and "rd4 (write_entry a w link key data expire) w = link"
    and "klen (write_entry a w link key data expire) w = length key"
    and "dlen (write_entry a w link key data expire) w = length data"
    and "key_at (write_entry a w link key data expire) w = key"
    and "data_at (write_entry a w link key data expire) w = data"
    and "expire_at (write_entry a w link key data expire) w = expire"
proof -
  let ?a' = "write_entry a w link key data expire"
  show len: "length ?a' = length a" using fit by (simp add: write_entry_def)
  show "agree a ?a' 0 w"
    unfolding write_entry_def using fit by (intro agree_store2 agree_refl) simp_all
  show "agree a ?a' (w + 20 + length key + length data) (length a)"
    unfolding write_entry_def using fit by (intro agree_store2 agree_refl) simp_all
  show "rd4 ?a' w = link"
    unfolding write_entry_def rd4_def using fit
    by (simp add: load_store_disj load_store_eq uint32_unpack_pack)
  show k: "klen ?a' w = length key"
    unfolding write_entry_def rd4_def klen_def using fit small
    by (simp add: load_store_disj load_store_eq uint32_unpack_pack unat_of_nat32)
  show d: "dlen ?a' w = length data"
    unfolding write_entry_def rd4_def dlen_def using fit small
    by (simp add: load_store_disj load_store_eq uint32_unpack_pack unat_of_nat32)
  show "key_at ?a' w = key"
    unfolding key_at_def k unfolding write_entry_def using fit
    by (simp add: load_store_disj load_store_eq)
  show "data_at ?a' w = data"
    unfolding data_at_def k d unfolding write_entry_def using fit
    by (simp add: load_store_disj load_store_eq)
  show "expire_at ?a' w = expire"
    unfolding write_entry_def expire_at_def using fit
    by (simp add: load_store_disj load_store_eq tai_unpack_pack)
qed

lemma agree_rd4: "agree a a' f (f + 4) \<Longrightarrow> rd4 a' f = rd4 a f"
  using rd4_agree[of a a' f "f + 4" f] by simp

lemma walk_hd:
  "walk a prev cur ps \<Longrightarrow> (ps = [] \<and> cur = 0) \<or> (ps \<noteq> [] \<and> cur = word_of_nat (hd ps))"
  by (cases ps) simp_all

text \<open>Insertion on the arena: the link of the current head entry is rewritten, the new
  entry is written at \<open>w\<close> in the gap, and the head slot is pointed at it.\<close>

lemma append_arena:
  fixes expire :: tai
  assumes inv: "arena_inv a hs hi L"
    and w: "unat hs \<le> w" "w + len \<le> hi"
    and len: "len = length key + length data + 20"
    and gap: "\<And>f. f \<in> set L \<Longrightarrow> f + elen a f \<le> w \<or> w + len \<le> f"
  defines "b \<equiv> bucket hs key"
  defines "h \<equiv> rd4 a (unat b)"
  defines "a1 \<equiv> (if h \<noteq> 0
                  then store a (unat h) (uint32_pack (rd4 a (unat h) XOR b XOR word_of_nat w))
                  else a)"
  defines "a2 \<equiv> write_entry a1 w (h XOR b) key data expire"
  defines "a3 \<equiv> store a2 (unat b) (uint32_pack (word_of_nat w))"
  shows "arena_inv a3 hs hi (L @ [w])"
    and "length a3 = length a"
    and "\<And>f. f \<in> set L \<Longrightarrow> agree a a3 (f + 4) (f + elen a f)"
    and "klen a3 w = length key" and "dlen a3 w = length data"
    and "key_at a3 w = key" and "data_at a3 w = data" and "expire_at a3 w = expire"
    and "rd4 a3 (unat b) = word_of_nat w"
    and "h \<noteq> 0 \<Longrightarrow> unat h + 4 \<le> hi"
proof -
  let ?lo = "unat hs"
  from inv have hs: "4 \<le> ?lo" "?lo mod 4 = 0" and hi: "hi \<le> length a" "hi \<le> 1000000000"
    and sep: "separated a ?lo hi L" and ch: "chains_ok a hs L"
    by (simp_all add: arena_inv_def)
  note bounds = separated_bounds[OF sep]
  have lohi: "?lo \<le> hi" using w by linarith
  have b: "b < hs" "unat b mod 4 = 0" "unat b + 4 \<le> ?lo"
    using bucket_lt[OF hs(1)] bucket_aligned bucket_le[OF hs(1)] by (simp_all add: b_def)
  define C where "C = chain_list a hs L b"
  have wC: "walk a b h C" using chains_okD[OF ch b(1,2)] by (simp add: C_def h_def)
  have Csub: "set C \<subseteq> set L" unfolding C_def by (rule chain_list_subset)
  have Cdist: "distinct C" unfolding C_def using separated_distinct[OF sep] by (rule chain_list_distinct)
  have hC: "(C = [] \<and> h = 0) \<or> (C \<noteq> [] \<and> h \<noteq> 0 \<and> unat h = hd C \<and> hd C \<in> set L)"
  proof (cases "C = []")
    case True with wC show ?thesis by simp
  next
    case False
    then have m: "hd C \<in> set L" using Csub by auto
    from bounds[OF m] hi hs have r: "hd C \<le> 1000000000" "0 < hd C" by linarith+
    from walk_hd[OF wC] False have "h = word_of_nat (hd C)" by simp
    then have "unat h = hd C" using unat_of_nat32[OF r(1)] by simp
    moreover from this r have "h \<noteq> 0" by auto
    ultimately show ?thesis using False m by simp
  qed
  text \<open>The first write.\<close>
  have s1: "length a1 = length a
      \<and> (\<forall>f\<in>set L. agree a a1 (f + 4) (f + elen a f))
      \<and> (\<forall>f\<in>set L. (C = [] \<or> f \<noteq> hd C) \<longrightarrow> rd4 a1 f = rd4 a f)
      \<and> (C \<noteq> [] \<longrightarrow> rd4 a1 (hd C) = rd4 a (hd C) XOR b XOR word_of_nat w)
      \<and> (\<forall>q. q + 4 \<le> ?lo \<longrightarrow> rd4 a1 q = rd4 a q)"
  proof (cases "C = []")
    case True
    with hC have "a1 = a" by (simp add: a1_def)
    then show ?thesis using True by simp
  next
    case False
    with hC have h: "h \<noteq> 0" "unat h = hd C" "hd C \<in> set L" by auto
    have pv: "hd C \<in> set L \<or> hd C + 4 \<le> ?lo" using h by simp
    have a1: "a1 = store a (hd C) (uint32_pack (rd4 a (hd C) XOR b XOR word_of_nat w))"
      using h by (simp add: a1_def)
    note lw = link_write[OF sep hi(1) lohi pv, where v = "rd4 a (hd C) XOR b XOR word_of_nat w",
        folded a1]
    have "\<forall>q. q + 4 \<le> ?lo \<longrightarrow> rd4 a1 q = rd4 a q"
      using lw(5) bounds[OF h(3)] by auto
    then show ?thesis using lw(1,2,3,4) False by auto
  qed
  then have l1: "length a1 = length a"
    and ag1: "\<And>f. f \<in> set L \<Longrightarrow> agree a a1 (f + 4) (f + elen a f)"
    and ln1: "\<And>f. f \<in> set L \<Longrightarrow> C = [] \<or> f \<noteq> hd C \<Longrightarrow> rd4 a1 f = rd4 a f"
    and hd1: "C \<noteq> [] \<Longrightarrow> rd4 a1 (hd C) = rd4 a (hd C) XOR b XOR word_of_nat w"
    and cell1: "\<And>q. q + 4 \<le> ?lo \<Longrightarrow> rd4 a1 q = rd4 a q"
    by blast+
  text \<open>The new entry.\<close>
  have fit: "w + 20 + length key + length data \<le> length a1" using w hi len l1 by linarith
  have small: "length key \<le> 1000000000" "length data \<le> 1000000000" using w hi len by linarith+
  note we = write_entry_props[OF fit small, where link = "h XOR b" and expire = expire, folded a2_def]
  have l2: "length a2 = length a" using we(1) l1 by simp
  have below2: "\<And>p q. q \<le> w \<Longrightarrow> agree a1 a2 p q"
    using agree_mono[OF we(2)] by simp
  have above2: "\<And>p q. w + len \<le> p \<Longrightarrow> agree a1 a2 p q"
  proof -
    fix p q assume "w + len \<le> p"
    then have "agree a1 a2 p (length a1)"
      using agree_mono[OF we(3), of p "length a1"] len by (simp add: add.commute add.left_commute)
    then show "agree a1 a2 p q" by (auto simp: agree_def)
  qed
  have ent2: "\<And>f. f \<in> set L \<Longrightarrow> agree a1 a2 f (f + elen a f)"
    using gap below2 above2 by blast
  text \<open>The head slot.\<close>
  have fit3: "unat b + length (uint32_pack (word_of_nat w :: uint32)) \<le> length a2"
    using b lohi hi l2 by simp
  have l3: "length a3 = length a" unfolding a3_def using fit3 l2 by simp
  have above3: "\<And>p q. ?lo \<le> p \<Longrightarrow> agree a2 a3 p q"
    unfolding a3_def using b by (intro agree_store[OF fit3]) simp
  have hd3: "rd4 a3 (unat b) = word_of_nat w"
    unfolding a3_def using fit3 by (intro rd4_store_same) simp
  have cell3: "\<And>q. q + 4 \<le> unat b \<or> unat b + 4 \<le> q \<Longrightarrow> rd4 a3 q = rd4 a2 q"
  proof -
    fix q assume "q + 4 \<le> unat b \<or> unat b + 4 \<le> q"
    then have "agree a2 a3 q (q + 4)" unfolding a3_def by (intro agree_store[OF fit3]) auto
    then show "rd4 a3 q = rd4 a2 q" by (rule agree_rd4)
  qed
  show "length a3 = length a" by (rule l3)
  show "rd4 a3 (unat b) = word_of_nat w" by (rule hd3)
  show "unat h + 4 \<le> hi" if "h \<noteq> 0"
  proof -
    from that hC have "unat h \<in> set L" by auto
    from bounds[OF this] elen_ge20[of a "unat h"] show ?thesis by linarith
  qed
  text \<open>The old entries keep their fields, the new entry has those written.\<close>
  have el1: "\<And>f. f \<in> set L \<Longrightarrow> elen a1 f = elen a f" using fields_agree(3)[OF ag1] .
  show ag: "\<And>f. f \<in> set L \<Longrightarrow> agree a a3 (f + 4) (f + elen a f)"
  proof -
    fix f assume f: "f \<in> set L"
    have "agree a1 a2 (f + 4) (f + elen a f)" using agree_mono[OF ent2[OF f]] by simp
    moreover have "agree a2 a3 (f + 4) (f + elen a f)" using bounds[OF f] by (intro above3) simp
    ultimately show "agree a a3 (f + 4) (f + elen a f)"
      using ag1[OF f] by (blast intro: agree_trans)
  qed
  have wag: "agree a2 a3 (w + 4) (w + elen a2 w)" using w by (intro above3) simp
  show k3: "klen a3 w = length key" using fields_agree(1)[OF wag] we(5) by simp
  show d3: "dlen a3 w = length data" using fields_agree(2)[OF wag] we(6) by simp
  show key3: "key_at a3 w = key" using fields_agree(4)[OF wag] we(7) by simp
  show "data_at a3 w = data" using fields_agree(5)[OF wag] we(8) by simp
  show "expire_at a3 w = expire" using fields_agree(6)[OF wag] we(9) by simp
  have el3: "\<And>f. f \<in> set L \<Longrightarrow> elen a3 f = elen a f" using fields_agree(3)[OF ag] .
  have key3L: "\<And>f. f \<in> set L \<Longrightarrow> key_at a3 f = key_at a f" using fields_agree(4)[OF ag] .
  have elw: "elen a3 w = len" using k3 d3 len by (simp add: elen_def)
  have lnk3: "\<And>f. f \<in> set L \<Longrightarrow> rd4 a3 f = rd4 a1 f"
  proof -
    fix f assume f: "f \<in> set L"
    have "agree a1 a2 f (f + 4)" using agree_mono[OF ent2[OF f], of f "f + 4"] elen_ge20[of a f] by simp
    then have "rd4 a2 f = rd4 a1 f" by (rule agree_rd4)
    moreover have "rd4 a3 f = rd4 a2 f" using bounds[OF f] b by (intro cell3) simp
    ultimately show "rd4 a3 f = rd4 a1 f" by simp
  qed
  have lnkw: "rd4 a3 w = h XOR b" using cell3[of w] w b we(4) by simp
  have wnotin: "w \<notin> set L"
  proof
    assume "w \<in> set L"
    from gap[OF this] elen_ge20[of a w] len show False by linarith
  qed
  have sep3: "separated a3 ?lo hi (L @ [w])"
    unfolding separated_def
  proof (intro conjI ballI impI)
    show "distinct (L @ [w])" using separated_distinct[OF sep] wnotin by simp
  next
    fix e assume "e \<in> set (L @ [w])"
    then show "?lo \<le> e" using bounds w by auto
  next
    fix e assume "e \<in> set (L @ [w])"
    then show "e + elen a3 e \<le> hi" using bounds w el3 elw by auto
  next
    fix e e' assume e: "e \<in> set (L @ [w])" "e' \<in> set (L @ [w])" "e \<noteq> e'"
    show "e + elen a3 e \<le> e' \<or> e' + elen a3 e' \<le> e"
    proof (cases "e = w")
      case True
      with e have "e' \<in> set L" by auto
      from gap[OF this] el3[OF this] elw True show ?thesis by auto
    next
      case False
      with e have eL: "e \<in> set L" by auto
      show ?thesis
      proof (cases "e' = w")
        case True
        from gap[OF eL] el3[OF eL] elw True show ?thesis by auto
      next
        case False
        with e have e'L: "e' \<in> set L" by auto
        from sep eL e'L e(3) have "e + elen a e \<le> e' \<or> e' + elen a e' \<le> e"
          unfolding separated_def by blast
        then show ?thesis using el3[OF eL] el3[OF e'L] by simp
      qed
    qed
  qed
  have "chains_ok a3 hs (L @ [w])"
    unfolding chains_ok_def
  proof (intro allI impI)
    fix b' :: uint32 assume b': "b' < hs" "unat b' mod 4 = 0"
    then have b'4: "unat b' + 4 \<le> ?lo" using hs by (simp add: word_less_nat_alt) presburger
    have same: "chain_list a3 hs L b' = chain_list a hs L b'"
      using key3L by (intro chain_list_cong) simp
    show "walk a3 b' (rd4 a3 (unat b')) (chain_list a3 hs (L @ [w]) b')"
    proof (cases "b' = b")
      case True
      have "walk a3 b (word_of_nat w) (w # C)"
      proof (rule walk_push[OF wC Cdist])
        show "rd4 a3 w = h XOR b" by (rule lnkw)
        show "rd4 a3 (hd C) = rd4 a (hd C) XOR b XOR word_of_nat w" if "C \<noteq> []"
          using that hC hd1 lnk3[of "hd C"] by auto
        show "rd4 a3 p = rd4 a p" if "p \<in> set C" "p \<noteq> hd C" for p
          using that Csub lnk3[of p] ln1[of p] by auto
      qed
      then show ?thesis
        using True hd3 same key3 by (simp add: chain_list_snoc C_def b_def)
    next
      case False
      have cl: "chain_list a3 hs (L @ [w]) b' = chain_list a hs L b'"
        using False same key3 by (simp add: chain_list_snoc b_def)
      have apart: "unat b' + 4 \<le> unat b \<or> unat b + 4 \<le> unat b'"
        using aligned_apart[OF b'(2) b(2) False] .
      have "agree a1 a2 (unat b') (unat b' + 4)" using b'4 w by (intro below2) simp
      then have "rd4 a2 (unat b') = rd4 a1 (unat b')" by (rule agree_rd4)
      then have hd_same: "rd4 a3 (unat b') = rd4 a (unat b')"
        using cell3[of "unat b'"] apart cell1[OF b'4] by auto
      have "walk a3 b' (rd4 a (unat b')) (chain_list a hs L b')
          = walk a b' (rd4 a (unat b')) (chain_list a hs L b')"
      proof (rule walk_cong)
        fix q assume q: "q \<in> set (chain_list a hs L b')"
        then have qL: "q \<in> set L" using chain_list_subset by blast
        have "C = [] \<or> q \<noteq> hd C"
        proof (cases "C = []")
          case True then show ?thesis by simp
        next
          case False
          then have "hd C \<in> set C" by simp
          then have "bucket hs (key_at a (hd C)) = b" unfolding C_def by (rule chain_list_bucket_of)
          moreover have "bucket hs (key_at a q) = b'" using q by (rule chain_list_bucket_of)
          ultimately show ?thesis using \<open>b' \<noteq> b\<close> by auto
        qed
        then show "rd4 a3 q = rd4 a q" using lnk3[OF qL] ln1[OF qL] by simp
      qed
      then show ?thesis using chains_okD[OF ch b'] cl hd_same by simp
    qed
  qed
  then show "arena_inv a3 hs hi (L @ [w])"
    using hs hi sep3 l3 by (simp add: arena_inv_def)
qed


section \<open>The invariant of the cache\<close>

lemma get4_Inr:
  "x c = Some a \<Longrightarrow> 4 \<le> unat (size_c c) \<Longrightarrow> unat (size_c c) \<le> length a
   \<Longrightarrow> unat pos + 4 \<le> unat (size_c c) \<Longrightarrow> get4 c pos = Inr (rd4 a (unat pos))"
  by (simp add: get4_def rd4_def word_less_nat_alt unat_sub word_le_nat_alt)

lemma set4_Inr:
  "x c = Some a \<Longrightarrow> 4 \<le> unat (size_c c) \<Longrightarrow> unat (size_c c) \<le> length a
   \<Longrightarrow> unat pos + 4 \<le> unat (size_c c)
   \<Longrightarrow> set4 c pos u = Inr (c\<lparr>x := Some (store a (unat pos) (uint32_pack u))\<rparr>)"
  by (simp add: set4_def word_less_nat_alt unat_sub word_le_nat_alt)

lemma poke_Inr:
  "x c = Some a \<Longrightarrow> p + length bs \<le> length a \<Longrightarrow> poke c p bs = Inr (c\<lparr>x := Some (store a p bs)\<rparr>)"
  by (simp add: poke_def)

lemma separated_regions:
  assumes old: "region a ol ul = Some old" and new: "region a h w = Some new"
    and ord: "w \<le> ol" "ul \<le> hi"
  shows "separated a h hi (old @ new)"
proof -
  have bo: "\<And>f. f \<in> set old \<Longrightarrow> ol \<le> f \<and> f + elen a f \<le> ul" using region_bounds[OF old] .
  have bn: "\<And>f. f \<in> set new \<Longrightarrow> h \<le> f \<and> f + elen a f \<le> w" using region_bounds[OF new] .
  have hw: "h \<le> w" using region_le[OF new] .
  have lt: "\<And>f. f < f + elen a f" using elen_ge20 by (simp add: less_le_trans[of 0 20])
  show ?thesis
    unfolding separated_def
  proof (intro conjI ballI impI)
    have "set old \<inter> set new = {}"
    proof (rule ccontr)
      assume "set old \<inter> set new \<noteq> {}"
      then obtain f where "f \<in> set old" "f \<in> set new" by auto
      with bo[of f] bn[of f] ord lt[of f] show False by linarith
    qed
    then show "distinct (old @ new)" using region_distinct[OF old] region_distinct[OF new] by simp
  next
    fix e assume "e \<in> set (old @ new)"
    then show "h \<le> e" using bo[of e] bn[of e] ord hw by auto
  next
    fix e assume "e \<in> set (old @ new)"
    then show "e + elen a e \<le> hi" using bo[of e] bn[of e] ord region_le[OF old] by auto
  next
    fix e e' assume e: "e \<in> set (old @ new)" "e' \<in> set (old @ new)" "e \<noteq> e'"
    consider "e \<in> set old" "e' \<in> set old" | "e \<in> set new" "e' \<in> set new"
      | "e \<in> set old" "e' \<in> set new" | "e \<in> set new" "e' \<in> set old"
      using e by auto
    then show "e + elen a e \<le> e' \<or> e' + elen a e' \<le> e"
    proof cases
      case 1 then show ?thesis using region_sep[OF old _ _ e(3)] by simp
    next
      case 2 then show ?thesis using region_sep[OF new _ _ e(3)] by simp
    next
      case 3 then show ?thesis using bo[of e] bn[of e'] ord by auto
    next
      case 4 then show ?thesis using bo[of e'] bn[of e] ord by auto
    qed
  qed
qed

lemma pow2_mod4: "2 \<le> j \<Longrightarrow> (2::nat) ^ j mod 4 = 0"
proof -
  assume "2 \<le> j"
  then obtain k where "j = 2 + k" using le_Suc_ex by blast
  then show ?thesis by (simp add: power_add)
qed

lemma cursor_inv_hsize: "cursor_inv c \<Longrightarrow> 4 \<le> unat (hsize c) \<and> unat (hsize c) mod 4 = 0"
proof -
  assume c: "cursor_inv c"
  then obtain j where j: "unat (hsize c) = 2 ^ j" and h: "4 \<le> unat (hsize c)"
    unfolding cursor_inv_def by blast
  have "2 \<le> j"
  proof (rule ccontr)
    assume "\<not> 2 \<le> j"
    then have "j = 0 \<or> j = 1" by auto
    with j h show False by auto
  qed
  with j h show ?thesis by (simp add: pow2_mod4)
qed

lemma bucket_chain_eq:
  "x c = Some a \<Longrightarrow> bucket_chain c b = chain_list a (hsize c) (live c) b"
  by (simp add: bucket_chain_def chain_list_def hash_def)

lemma live_eq:
  "x c = Some a \<Longrightarrow> region a (unat (oldest c)) (unat (unused c)) = Some old
   \<Longrightarrow> region a (unat (hsize c)) (unat (writer c)) = Some new \<Longrightarrow> live c = old @ new"
  by (simp add: live_def)

text \<open>The invariant of the cache, taken apart and put together.\<close>

lemma cache_invD:
  assumes "cache_inv c"
  obtains a old new where "x c = Some a"
    and "100 \<le> unat (size_c c)" "unat (size_c c) \<le> 1000000000" "unat (size_c c) \<le> length a"
    and "cursor_inv c"
    and "region a (unat (oldest c)) (unat (unused c)) = Some old"
    and "region a (unat (hsize c)) (unat (writer c)) = Some new"
    and "live c = old @ new"
    and "arena_inv a (hsize c) (unat (size_c c)) (old @ new)"
proof -
  from assms obtain a where a: "x c = Some a" by (auto simp: cache_inv_def split: option.splits)
  with assms have sz: "100 \<le> unat (size_c c)" "unat (size_c c) \<le> 1000000000"
      "unat (size_c c) \<le> length a"
    and cur: "cursor_inv c"
    and ro: "region a (unat (oldest c)) (unat (unused c)) \<noteq> None"
    and rn: "region a (unat (hsize c)) (unat (writer c)) \<noteq> None"
    and wk: "\<forall>b. b < hsize c \<longrightarrow> unat b mod 4 = 0 \<longrightarrow> walk a b (rd4 a (unat b)) (bucket_chain c b)"
    by (simp_all add: cache_inv_def)
  from ro rn obtain old new where
    old: "region a (unat (oldest c)) (unat (unused c)) = Some old"
    and new: "region a (unat (hsize c)) (unat (writer c)) = Some new" by auto
  have lv: "live c = old @ new" using live_eq[OF a old new] .
  have ord: "unat (writer c) \<le> unat (oldest c)" "unat (unused c) \<le> unat (size_c c)"
    using cur by (simp_all add: cursor_inv_def word_le_nat_alt)
  have "chains_ok a (hsize c) (old @ new)"
    unfolding chains_ok_def using wk bucket_chain_eq[OF a] lv by simp
  then have "arena_inv a (hsize c) (unat (size_c c)) (old @ new)"
    using cursor_inv_hsize[OF cur] sz separated_regions[OF old new ord] by (simp add: arena_inv_def)
  then show ?thesis using that a sz cur old new lv by blast
qed

lemma cache_invI:
  assumes "x c = Some a"
    and "100 \<le> unat (size_c c)" "unat (size_c c) \<le> 1000000000" "unat (size_c c) \<le> length a"
    and "cursor_inv c"
    and "region a (unat (oldest c)) (unat (unused c)) = Some old"
    and "region a (unat (hsize c)) (unat (writer c)) = Some new"
    and "chains_ok a (hsize c) (old @ new)"
  shows "cache_inv c"
proof -
  have lv: "live c = old @ new" using live_eq[OF assms(1,6,7)] .
  have "\<forall>b. b < hsize c \<longrightarrow> unat b mod 4 = 0 \<longrightarrow> walk a b (rd4 a (unat b)) (bucket_chain c b)"
    using assms(8) bucket_chain_eq[OF assms(1)] lv by (simp add: chains_ok_def)
  then show ?thesis using assms by (simp add: cache_inv_def)
qed

lemma rd4_zero:
  "p + 4 \<le> n \<Longrightarrow> n \<le> length mem \<Longrightarrow> rd4 (store mem 0 (replicate n 0)) p = 0"
proof -
  assume p: "p + 4 \<le> n" and n: "n \<le> length mem"
  have "load (store mem 0 (replicate n 0)) p 4 = replicate 4 0"
    using p n by (auto simp: load_def store_def intro!: nth_equalityI simp: nth_append)
  then show ?thesis by (simp add: rd4_def uint32_unpack_def numeral_eq_Suc)
qed

text \<open>A successful \<open>init\<close> establishes the invariant.\<close>

lemma init_inv:
  assumes "init heap now c cachesize opts = Some (Inr (True, c'))"
  shows "cache_inv c'" and "live c' = []"
proof -
  note i = init_Some[OF assms]
  from i(2) obtain j where j: "hsize c' = 2 ^ j" "2 \<le> j" "j < 32"
      "unat (size_c c') div 32 < 2 ^ j" "2 ^ (j - 1) \<le> unat (size_c c') div 32" by blast
  from i(6) obtain mem where mem: "x c' = Some (store mem 0 (replicate (unat (size_c c')) 0))"
      "unat (size_c c') \<le> length mem" by blast
  let ?a = "store mem 0 (replicate (unat (size_c c')) 0)"
  have sz: "100 \<le> unat (size_c c')" "unat (size_c c') \<le> 1000000000"
    using clamp_size_bounds[of cachesize] i(1) by simp_all
  have hj: "unat (hsize c') = 2 ^ j" using j by (simp add: unat_2p)
  have "(2::nat) ^ j = 2 * 2 ^ (j - 1)" using j(2) by (cases j) simp_all
  then have h16: "unat (hsize c') \<le> unat (size_c c') div 16" using hj j(5) by simp
  have "(2::nat) ^ 2 \<le> 2 ^ j" using j(2) by (intro power_increasing) simp_all
  then have h4: "4 \<le> unat (hsize c')" using hj by simp
  have hle: "unat (hsize c') \<le> unat (size_c c')" using h16 by simp
  have cur: "cursor_inv c'"
    unfolding cursor_inv_def using i(3,4,5) hle h16 h4 hj by (auto simp: word_le_nat_alt)
  have la: "length ?a = length mem" using mem(2) by (simp add: store_def)
  have r1: "region ?a (unat (oldest c')) (unat (unused c')) = Some []" using i(4,5) by simp
  have r2: "region ?a (unat (hsize c')) (unat (writer c')) = Some []" using i(3) by simp
  have "chains_ok ?a (hsize c') ([] @ [])"
    unfolding chains_ok_def
  proof (intro allI impI)
    fix b :: uint32 assume b: "b < hsize c'" "unat b mod 4 = 0"
    then have "unat b + 4 \<le> unat (hsize c')"
      using cursor_inv_hsize[OF cur] by (simp add: word_less_nat_alt) presburger
    then have "unat b + 4 \<le> unat (size_c c')" using hle by linarith
    then have "rd4 ?a (unat b) = 0" using mem(2) by (rule rd4_zero)
    then show "walk ?a b (rd4 ?a (unat b)) (chain_list ?a (hsize c') ([] @ []) b)"
      by (simp add: chain_list_def)
  qed
  then show "cache_inv c'"
    using cache_invI[OF mem(1) sz _ cur r1 r2] mem(2) la by simp
  show "live c' = []" using live_eq[OF mem(1) r1 r2] by simp
qed

lemma unat_add32:
  "unat (u::uint32) + unat v \<le> 1000000000 \<Longrightarrow> unat (u + v) = unat u + unat v"
  using unat_add_lem[of u v] by simp

lemma cursor_invD:
  assumes "cursor_inv c"
  shows "unat (hsize c) \<le> unat (writer c)" "unat (writer c) \<le> unat (oldest c)"
    "unat (oldest c) \<le> unat (unused c)" "unat (unused c) \<le> unat (size_c c)"
    "oldest c = unused c \<Longrightarrow> unused c = size_c c"
  using assms by (simp_all add: cursor_inv_def word_le_nat_alt)

text \<open>The eviction of the oldest entry keeps the invariant and shortens the old
  region.\<close>

lemma evict_inv:
  assumes inv: "cache_inv c" and ne: "oldest c \<noteq> unused c"
  shows "\<exists>c'. evict c = Inr c' \<and> cache_inv c'
          \<and> hsize c' = hsize c \<and> writer c' = writer c \<and> size_c c' = size_c c
          \<and> options c' = options c \<and> cycle_last_ratio c' = cycle_last_ratio c
          \<and> cycle_start c' = cycle_start c \<and> cycle_ttl c' = cycle_ttl c
          \<and> cache_motion c' = cache_motion c
          \<and> live c' = tl (live c)
          \<and> unat (unused c') - unat (oldest c') < unat (unused c) - unat (oldest c)"
proof -
  from inv obtain a old new where a: "x c = Some a"
    and sz: "100 \<le> unat (size_c c)" "unat (size_c c) \<le> 1000000000" "unat (size_c c) \<le> length a"
    and cur: "cursor_inv c"
    and old: "region a (unat (oldest c)) (unat (unused c)) = Some old"
    and new: "region a (unat (hsize c)) (unat (writer c)) = Some new"
    and lv: "live c = old @ new"
    and ar: "arena_inv a (hsize c) (unat (size_c c)) (old @ new)"
    by (rule cache_invD)
  note cd = cursor_invD[OF cur]
  define e where "e = unat (oldest c)"
  have "e < unat (unused c)" using cd(3) ne by (simp add: e_def word_unat_eq_iff)
  with old obtain es where es: "old = e # es" using region_lt[of e "unat (unused c)" a old]
    by (auto simp: e_def)
  from old es have r: "e + elen a e \<le> unat (unused c)"
      "region a (e + elen a e) (unat (unused c)) = Some es"
    by (simp_all add: region_Cons e_def)
  have ar': "arena_inv a (hsize c) (unat (size_c c)) (e # (es @ new))" using ar es by simp
  define pv where "pv = unat (rd4 a e)"
  define a' where "a' = store a pv (uint32_pack (rd4 a pv XOR word_of_nat e))"
  note ev = evict_arena[OF ar', folded pv_def, folded a'_def]
  have ee: "e + elen a e \<le> unat (size_c c)" using r(1) cd(4) by linarith
  have e20: "e + 20 \<le> unat (size_c c)" using ee elen_ge20[of a e] by linarith
  have epos: "e < e + elen a e" using elen_ge20[of a e] by linarith
  have oe: "word_of_nat e = oldest c" by (simp add: e_def)
  have g1: "get4 c (oldest c) = Inr (rd4 a e)"
    using get4_Inr[OF a _ sz(3), of "oldest c"] sz e20 by (simp add: e_def)
  have g2: "get4 c (rd4 a e) = Inr (rd4 a pv)"
    using get4_Inr[OF a _ sz(3), of "rd4 a e"] sz ev(1) by (simp add: pv_def)
  define c1 where "c1 = c\<lparr>x := Some a'\<rparr>"
  have s1: "set4 c (rd4 a e) (rd4 a pv XOR oldest c) = Inr c1"
    using set4_Inr[OF a _ sz(3), of "rd4 a e"] sz ev(1) by (simp add: pv_def c1_def a'_def oe)
  have a1: "x c1 = Some a'" by (simp add: c1_def)
  have sz1: "unat (size_c c1) \<le> length a'" using sz ev(3) by (simp add: c1_def)
  have u4: "unat (oldest c + 4) = e + 4" using unat_add32[of "oldest c" 4] ee e20 sz by (simp add: e_def)
  have u8: "unat (oldest c + 8) = e + 8" using unat_add32[of "oldest c" 8] ee e20 sz by (simp add: e_def)
  have ag: "agree a a' (e + 4) (e + elen a e)" using ev(4)[of e] by simp
  note fa = fields_agree[OF ag]
  have g3: "get4 c1 (oldest c1 + 4) = Inr (rd4 a' (e + 4))"
    using get4_Inr[OF a1 _ sz1, of "oldest c + 4"] sz e20 u4 by (simp add: c1_def)
  have g4: "get4 c1 (oldest c1 + 8) = Inr (rd4 a' (e + 8))"
    using get4_Inr[OF a1 _ sz1, of "oldest c + 8"] sz e20 u8 by (simp add: c1_def)
  have kd: "unat (rd4 a' (e + 4)) = klen a e" "unat (rd4 a' (e + 8)) = dlen a e"
    using fa(1,2) by (simp_all add: klen_def dlen_def)
  have el: "elen a e = klen a e + dlen a e + 20" by (simp add: elen_def)
  have sum1: "unat (rd4 a' (e + 4) + rd4 a' (e + 8)) = klen a e + dlen a e"
    using unat_add32[of "rd4 a' (e + 4)" "rd4 a' (e + 8)"] kd el ee sz by simp
  have sum2: "unat (rd4 a' (e + 4) + rd4 a' (e + 8) + 20) = elen a e"
    using unat_add32[of "rd4 a' (e + 4) + rd4 a' (e + 8)" 20] sum1 el ee sz by simp
  have adv: "unat (oldest c + (rd4 a' (e + 4) + rd4 a' (e + 8) + 20)) = e + elen a e"
    using unat_add32[of "oldest c" "rd4 a' (e + 4) + rd4 a' (e + 8) + 20"] sum2 ee sz
    by (simp add: e_def)
  define o' where "o' = oldest c + (rd4 a' (e + 4) + rd4 a' (e + 8) + 20)"
  have o': "unat o' = e + elen a e" using adv by (simp add: o'_def)
  have ngt: "\<not> o' > unused c" using o' r(1) by (simp add: word_less_nat_alt)
  define c' where "c' = (if o' = unused c
      then c1\<lparr>oldest := o', unused := size_c c, oldest := size_c c\<rparr> else c1\<lparr>oldest := o'\<rparr>)"
  have ev_eq: "evict c = Inr c'"
    unfolding evict_def using g1 g2 s1 g3 g4 ngt
    by (simp add: Let_def c'_def o'_def c1_def)
  have el_same: "\<And>f. f \<in> set (es @ new) \<Longrightarrow> elen a' f = elen a f"
    using fields_agree(3)[OF ev(4)] by simp
  have rn': "region a' (unat (hsize c)) (unat (writer c)) = Some new"
    using region_cong[OF new, of a'] el_same by simp
  have ro': "region a' (e + elen a e) (unat (unused c)) = Some es"
    using region_cong[OF r(2), of a'] el_same by simp
  have ch': "chains_ok a' (hsize c) (es @ new)" using ev(2) by (simp add: arena_inv_def)
  have hsz: "\<exists>j. unat (hsize c) = 2 ^ j" "4 \<le> unat (hsize c)"
      "unat (hsize c) \<le> unat (size_c c) div 16"
    using cur by (simp_all add: cursor_inv_def)
  show ?thesis
  proof (cases "o' = unused c")
    case True
    then have c'eq: "c' = c\<lparr>x := Some a', unused := size_c c, oldest := size_c c\<rparr>"
      by (simp add: c'_def c1_def)
    from True o' have "e + elen a e = unat (unused c)" by simp
    with r(2) have esn: "es = []" by (simp add: region_Nil)
    have cur': "cursor_inv c'"
      unfolding cursor_inv_def using cd hsz by (simp add: c'eq word_le_nat_alt)
    have inv': "cache_inv c'"
    proof (rule cache_invI[where a = a' and old = "[]" and new = new])
      show "x c' = Some a'" by (simp add: c'eq)
      show "100 \<le> unat (size_c c')" "unat (size_c c') \<le> 1000000000" using sz by (simp_all add: c'eq)
      show "unat (size_c c') \<le> length a'" using sz ev(3) by (simp add: c'eq)
      show "cursor_inv c'" by (rule cur')
      show "region a' (unat (oldest c')) (unat (unused c')) = Some []" by (simp add: c'eq)
      show "region a' (unat (hsize c')) (unat (writer c')) = Some new" using rn' by (simp add: c'eq)
      show "chains_ok a' (hsize c') ([] @ new)" using ch' esn by (simp add: c'eq)
    qed
    have lv': "live c' = tl (live c)"
      using live_eq[of c' a' "[]" new] rn' lv es esn by (simp add: c'eq)
    have "unat (unused c') - unat (oldest c') < unat (unused c) - unat (oldest c)"
      using \<open>e < unat (unused c)\<close> by (simp add: c'eq e_def)
    then show ?thesis using ev_eq inv' lv' by (simp add: c'eq)
  next
    case False
    then have c'eq: "c' = c\<lparr>x := Some a', oldest := o'\<rparr>" by (simp add: c'_def c1_def)
    from False o' have lt: "e + elen a e < unat (unused c)"
      using r(1) by (simp add: word_unat_eq_iff)
    have cur': "cursor_inv c'"
      unfolding cursor_inv_def using cd hsz o' lt False
      by (simp add: c'eq word_le_nat_alt e_def)
    have inv': "cache_inv c'"
    proof (rule cache_invI[where a = a' and old = es and new = new])
      show "x c' = Some a'" by (simp add: c'eq)
      show "100 \<le> unat (size_c c')" "unat (size_c c') \<le> 1000000000" using sz by (simp_all add: c'eq)
      show "unat (size_c c') \<le> length a'" using sz ev(3) by (simp add: c'eq)
      show "cursor_inv c'" by (rule cur')
      show "region a' (unat (oldest c')) (unat (unused c')) = Some es" using ro' o' by (simp add: c'eq)
      show "region a' (unat (hsize c')) (unat (writer c')) = Some new" using rn' by (simp add: c'eq)
      show "chains_ok a' (hsize c') (es @ new)" using ch' by (simp add: c'eq)
    qed
    have lv': "live c' = tl (live c)"
      using live_eq[of c' a' es new] rn' ro' o' lv es by (simp add: c'eq)
    have "unat (unused c') - unat (oldest c') < unat (unused c) - unat (oldest c)"
      using lt o' epos by (simp add: c'eq e_def)
    then show ?thesis using ev_eq inv' lv' by (simp add: c'eq)
  qed
qed

lemma cache_inv_cong:
  "x c' = x c \<Longrightarrow> size_c c' = size_c c \<Longrightarrow> hsize c' = hsize c \<Longrightarrow> writer c' = writer c
   \<Longrightarrow> oldest c' = oldest c \<Longrightarrow> unused c' = unused c \<Longrightarrow> cache_inv c' = cache_inv c"
  by (cases "x c") (simp_all add: cache_inv_def cursor_inv_def bucket_chain_def live_def hash_def)

lemma live_cong:
  "x c' = x c \<Longrightarrow> hsize c' = hsize c \<Longrightarrow> writer c' = writer c
   \<Longrightarrow> oldest c' = oldest c \<Longrightarrow> unused c' = unused c \<Longrightarrow> live c' = live c"
  by (cases "x c") (simp_all add: live_def)

lemma clamp_size_idem: "clamp_size (clamp_size v) = clamp_size v"
  by (simp add: clamp_size_def Let_def MAXCACHESIZE_def MINCACHESIZE_def)

text \<open>\<open>init\<close> returns for every request that is already clamped; it fails exactly when
  the allocation fails.\<close>

lemma init_clamped:
  "\<exists>ok c'. init heap now c (clamp_size v) opts = Some (Inr (ok, c'))
      \<and> (ok \<longleftrightarrow> heap \<noteq> None) \<and> (\<not> ok \<longrightarrow> c' = c)"
proof (cases heap)
  case None
  then show ?thesis by (auto simp: init_def alloc_def)
next
  case (Some g)
  obtain j where "hsize_loop 4 (clamp_size v) = Some (2 ^ j)"
    using hsize_loop_4[of "clamp_size v"] by blast
  then show ?thesis using Some by (auto simp: init_def alloc_def clamp_size_idem Let_def)
qed

text \<open>\<open>check_for_resize\<close> always returns.  When it answers 0 it has changed the cycle
  fields only; when it answers 1 the options are kept, the last ratio is 0 and the
  arena is either a new, empty one or the old one.\<close>

lemma check_for_resize_cases:
  assumes "cache_inv c"
  shows "\<exists>b c'. check_for_resize e c = Some (Inr (b, c')) \<and> cache_inv c'
          \<and> options c' = options c
          \<and> (\<not> b \<longrightarrow> arena_state c' = arena_state c \<and> cycle_ttl c' = cycle_ttl c
                      \<and> cache_motion c' = cache_motion c)
          \<and> (b \<longrightarrow> cycle_last_ratio c' = 0 \<and> \<not> quiet (c\<lparr>writer := hsize c + 1\<rparr>)
                    \<and> (if heap_env e = None then arena_state c' = arena_state c
                        else fresh_arena c' \<and> live c' = []))"
proof -
  let ?ct = "taia_approx (taia_sub (taia_check e) (cycle_start c))"
  define P where "P b c' \<longleftrightarrow> cache_inv c'
          \<and> options c' = options c
          \<and> (\<not> b \<longrightarrow> arena_state c' = arena_state c \<and> cycle_ttl c' = cycle_ttl c
                      \<and> cache_motion c' = cache_motion c)
          \<and> (b \<longrightarrow> cycle_last_ratio c' = 0 \<and> \<not> quiet (c\<lparr>writer := hsize c + 1\<rparr>)
                    \<and> (if heap_env e = None then arena_state c' = arena_state c
                        else fresh_arena c' \<and> live c' = []))" for b c'
  have "\<exists>b c'. check_for_resize e c = Some (Inr (b, c')) \<and> P b c'"
  proof (cases "allow_resize (options c) \<and> ?ct \<noteq> 0")
    case False
    then have "check_for_resize e c = Some (Inr (False, c\<lparr>cycle_start := taia_start e\<rparr>))"
      by (auto simp: check_for_resize_def Let_def)
    moreover have "cache_inv (c\<lparr>cycle_start := taia_start e\<rparr>)"
      using assms cache_inv_cong[of "c\<lparr>cycle_start := taia_start e\<rparr>" c] by simp
    then have "P False (c\<lparr>cycle_start := taia_start e\<rparr>)" by (simp add: P_def arena_state_def)
    ultimately show ?thesis by blast
  next
    case True
    obtain ratio newsize resize0 where sr: "should_resize (conv_junk e) c ?ct = (ratio, newsize, resize0)"
      by (cases "should_resize (conv_junk e) c ?ct") auto
    then obtain v where nv: "newsize = clamp_size v" by (auto simp: should_resize_def Let_def)
    have r0: "resize0 \<Longrightarrow> cycle_last_ratio c \<noteq> 0"
      using sr by (auto simp: should_resize_def Let_def split: if_splits)
    define resize where "resize = (case resize_callback (options c) of
                              None \<Rightarrow> resize0
                            | Some cb \<Rightarrow> cb ratio (size_c c) newsize (cycle_ttl c) resize0)"
    show ?thesis
    proof (cases resize)
      case False
      then have "check_for_resize e c = Some (Inr (False, c\<lparr>cycle_last_ratio := ratio,
                                           cycle_start := taia_start e\<rparr>))"
        using True sr by (simp add: check_for_resize_def Let_def resize_def)
      moreover have "cache_inv (c\<lparr>cycle_last_ratio := ratio, cycle_start := taia_start e\<rparr>)"
        using assms cache_inv_cong[of "c\<lparr>cycle_last_ratio := ratio, cycle_start := taia_start e\<rparr>" c]
        by simp
      then have "P False (c\<lparr>cycle_last_ratio := ratio, cycle_start := taia_start e\<rparr>)"
        by (simp add: P_def arena_state_def)
      ultimately show ?thesis by blast
    next
      case rs: True
      define c0 where "c0 = c\<lparr>cycle_last_ratio := 0\<rparr>"
      have nq: "\<not> quiet (c\<lparr>writer := hsize c + 1\<rparr>)"
        using rs r0 by (auto simp: quiet_def resize_def split: option.splits)
      from init_clamped[of "heap_env e" "taia_start e" c0 v "Some (options c0)"] obtain ok c1 where
        i: "init (heap_env e) (taia_start e) c0 newsize (Some (options c0)) = Some (Inr (ok, c1))"
           "ok \<longleftrightarrow> heap_env e \<noteq> None" "\<not> ok \<longrightarrow> c1 = c0"
        using nv by auto
      have cfr: "check_for_resize e c = Some (Inr (True, c1))"
        using True sr rs i(1) by (simp add: check_for_resize_def Let_def resize_def c0_def)
      show ?thesis
      proof (cases ok)
        case True
        with i have i': "init (heap_env e) (taia_start e) c0 newsize (Some (options c0)) = Some (Inr (True, c1))"
          by simp
        have "cache_inv c1" "live c1 = []" using init_inv[OF i'] by simp_all
        moreover have "fresh_arena c1" using init_Some(3,4,5)[OF i'] by (simp add: fresh_arena_def)
        moreover have "cycle_last_ratio c1 = 0" using init_Some(7)[OF i'] .
        moreover have "options c1 = options c" using init_Some(11)[OF i'] by (simp add: c0_def)
        ultimately have "P True c1" using True i(2) nq by (auto simp: P_def)
        then show ?thesis using cfr by blast
      next
        case False
        with i have c1: "c1 = c0" "heap_env e = None" by auto
        have "cache_inv c0" using assms cache_inv_cong[of c0 c] by (simp add: c0_def)
        then have "P True c1" using c1 nq by (simp add: c0_def arena_state_def P_def)
        then show ?thesis using cfr by blast
      qed
    qed
  qed
  then show ?thesis unfolding P_def by blast
qed

text \<open>The rotation of the regions at a cycle boundary.\<close>

lemma rotate_inv:
  assumes inv: "cache_inv c" and eq: "oldest c = unused c" and w: "\<not> writer c \<le> hsize c"
  defines "c' \<equiv> c\<lparr>unused := writer c, oldest := hsize c, writer := hsize c\<rparr>"
  shows "cache_inv c'" and "live c' = live c" and "oldest c' \<noteq> unused c'"
proof -
  from inv obtain a old new where a: "x c = Some a"
    and sz: "100 \<le> unat (size_c c)" "unat (size_c c) \<le> 1000000000" "unat (size_c c) \<le> length a"
    and cur: "cursor_inv c"
    and old: "region a (unat (oldest c)) (unat (unused c)) = Some old"
    and new: "region a (unat (hsize c)) (unat (writer c)) = Some new"
    and lv: "live c = old @ new"
    and ar: "arena_inv a (hsize c) (unat (size_c c)) (old @ new)"
    by (rule cache_invD)
  note cd = cursor_invD[OF cur]
  from old eq have on: "old = []" by (simp add: region_Nil)
  have hw: "unat (hsize c) < unat (writer c)" using w by (simp add: word_le_nat_alt)
  show ne: "oldest c' \<noteq> unused c'" using hw by (auto simp: c'_def)
  have cur': "cursor_inv c'"
    using cur cd hw ne eq unfolding cursor_inv_def by (auto simp: c'_def word_le_nat_alt)
  have ch: "chains_ok a (hsize c) (new @ [])" using ar on by (simp add: arena_inv_def)
  show "cache_inv c'"
  proof (rule cache_invI[where a = a and old = new and new = "[]"])
    show "x c' = Some a" using a by (simp add: c'_def)
    show "100 \<le> unat (size_c c')" "unat (size_c c') \<le> 1000000000" "unat (size_c c') \<le> length a"
      using sz by (simp_all add: c'_def)
    show "cursor_inv c'" by (rule cur')
    show "region a (unat (oldest c')) (unat (unused c')) = Some new" using new by (simp add: c'_def)
    show "region a (unat (hsize c')) (unat (writer c')) = Some []" by (simp add: c'_def)
    show "chains_ok a (hsize c') (new @ [])" using ch by (simp add: c'_def)
  qed
  show "live c' = live c"
    using live_eq[of c' a new "[]"] a new lv on by (simp add: c'_def)
qed


section \<open>The loop of cache_t_set\<close>

lemma unat_add32':
  "unat (u::uint32) + unat v \<le> 4294967295 \<Longrightarrow> unat (u + v) = unat u + unat v"
  using unat_add_lem[of u v] by simp

lemma loop_post_trans:
  assumes "loop_post e entrylen c1 r"
    and "size_c c1 = size_c c" "hsize c1 = hsize c" "options c1 = options c"
    and "quiet c \<Longrightarrow> quiet c1"
  shows "loop_post e entrylen c r"
  using assms by (cases r) (auto simp: loop_post_def)

lemma set_loop_total:
  assumes "cache_inv c" and el: "unat entrylen \<le> 1001020"
  shows "\<exists>r. set_loop e entrylen c = Some (Inr r) \<and> loop_post e entrylen c r"
  using assms(1)
proof (induction "loop_measure c" arbitrary: c rule: less_induct)
  case less
  note inv = less.prems
  from inv obtain a old new where a: "x c = Some a"
    and sz: "100 \<le> unat (size_c c)" "unat (size_c c) \<le> 1000000000" "unat (size_c c) \<le> length a"
    and cur: "cursor_inv c"
    and old: "region a (unat (oldest c)) (unat (unused c)) = Some old"
    and new: "region a (unat (hsize c)) (unat (writer c)) = Some new"
    and lv: "live c = old @ new"
    by (rule cache_invD)
  note cd = cursor_invD[OF cur]
  have wsum: "unat (writer c + entrylen) = unat (writer c) + unat entrylen"
    using cd sz el by (intro unat_add32') linarith
  show ?case
  proof (cases "writer c + entrylen > oldest c")
    case False
    then have "set_loop e entrylen c = Some (Inr (Room c))"
      by (subst set_loop.simps) simp
    moreover have "loop_post e entrylen c (Room c)"
      using False inv wsum by (simp add: loop_post_def word_less_nat_alt)
    ultimately show ?thesis by blast
  next
    case c1: True
    show ?thesis
    proof (cases "oldest c = unused c")
      case eq: True
      show ?thesis
      proof (cases "writer c \<le> hsize c")
        case True
        then have sl: "set_loop e entrylen c = Some (Inr (Gave_up c))"
          using c1 eq by (subst set_loop.simps) simp
        have wh: "unat (writer c) = unat (hsize c)" using True cd(1) by (simp add: word_le_nat_alt)
        from old eq have "old = []" by (simp add: region_Nil)
        moreover from new wh have "new = []" by (simp add: region_Nil)
        ultimately have "live c = []" using lv by simp
        moreover have "unat (size_c c) < unat (hsize c) + unat entrylen"
          using c1 wsum wh eq cd(5) by (simp add: word_less_nat_alt)
        ultimately have "loop_post e entrylen c (Gave_up c)"
          using inv by (simp add: loop_post_def)
        with sl show ?thesis by blast
      next
        case wgt: False
        from check_for_resize_cases[OF inv, of e] obtain b c2 where
          cf: "check_for_resize e c = Some (Inr (b, c2))" "cache_inv c2" "options c2 = options c"
            "\<not> b \<Longrightarrow> arena_state c2 = arena_state c"
            "b \<Longrightarrow> cycle_last_ratio c2 = 0 \<and> \<not> quiet (c\<lparr>writer := hsize c + 1\<rparr>)
                    \<and> (if heap_env e = None then arena_state c2 = arena_state c
                        else fresh_arena c2 \<and> live c2 = [])"
          by blast
        show ?thesis
        proof (cases b)
          case True
          then have sl: "set_loop e entrylen c = Some (Inr (Resized c2))"
            using c1 eq wgt cf(1) by (subst set_loop.simps) simp
          have "\<not> quiet c" using cf(5)[OF True] wgt by (auto simp: quiet_def)
          then have "loop_post e entrylen c (Resized c2)"
            using cf(2,3) cf(5)[OF True] by (auto simp: loop_post_def arena_state_def)
          with sl show ?thesis by blast
        next
          case False
          note st = cf(4)[OF False, unfolded arena_state_def]
          define c3 where "c3 = c2\<lparr>unused := writer c2, oldest := hsize c2, writer := hsize c2\<rparr>"
          have eq2: "oldest c2 = unused c2" and wgt2: "\<not> writer c2 \<le> hsize c2"
            using st eq wgt by simp_all
          note ro = rotate_inv[OF cf(2) eq2 wgt2, folded c3_def]
          from evict_inv[OF ro(1) ro(3)] obtain c4 where
            ev: "evict c3 = Inr c4" "cache_inv c4" "hsize c4 = hsize c3" "writer c4 = writer c3"
              "size_c c4 = size_c c3" "options c4 = options c3"
            by blast
          have w4: "writer c4 = hsize c4" using ev by (simp add: c3_def)
          have "loop_measure c4 < 4294967296"
            using w4 unsigned_less[of "unused c4", where 'a = nat] by (simp add: loop_measure_def)
          then have m: "loop_measure c4 < loop_measure c" using wgt by (simp add: loop_measure_def)
          from less.hyps[OF m ev(2)] obtain r where
            r: "set_loop e entrylen c4 = Some (Inr r)" "loop_post e entrylen c4 r" by blast
          have sl: "set_loop e entrylen c = Some (Inr r)"
            using c1 eq wgt cf(1) False ev(1) r(1) by (subst set_loop.simps) (simp add: c3_def)
          have "loop_post e entrylen c r"
          proof (rule loop_post_trans[OF r(2)])
            show "size_c c4 = size_c c" "hsize c4 = hsize c" "options c4 = options c"
              using ev st cf(3) by (simp_all add: c3_def)
            show "quiet c4" using w4 by (simp add: quiet_def)
          qed
          with sl show ?thesis by blast
        qed
      qed
    next
      case ne: False
      from evict_inv[OF inv ne] obtain c4 where
        ev: "evict c = Inr c4" "cache_inv c4" "hsize c4 = hsize c" "writer c4 = writer c"
          "size_c c4 = size_c c" "options c4 = options c" "cycle_last_ratio c4 = cycle_last_ratio c"
          "unat (unused c4) - unat (oldest c4) < unat (unused c) - unat (oldest c)"
        by blast
      have m: "loop_measure c4 < loop_measure c" using ev by (simp add: loop_measure_def)
      from less.hyps[OF m ev(2)] obtain r where
        r: "set_loop e entrylen c4 = Some (Inr r)" "loop_post e entrylen c4 r" by blast
      have sl: "set_loop e entrylen c = Some (Inr r)"
        using c1 ne ev(1) r(1) by (subst set_loop.simps) simp
      have "loop_post e entrylen c r"
      proof (rule loop_post_trans[OF r(2)])
        show "size_c c4 = size_c c" "hsize c4 = hsize c" "options c4 = options c"
          using ev by simp_all
        show "quiet c4" if "quiet c" using that ev by (simp add: quiet_def)
      qed
      with sl show ?thesis by blast
    qed
  qed
qed



section \<open>Writing the entry\<close>

lemma set4_upd:
  "4 \<le> unat (size_c c) \<Longrightarrow> unat (size_c c) \<le> length a \<Longrightarrow> unat pos + 4 \<le> unat (size_c c)
   \<Longrightarrow> set4 (c\<lparr>x := Some a\<rparr>) pos u = Inr (c\<lparr>x := Some (store a (unat pos) (uint32_pack u))\<rparr>)"
  using set4_Inr[of "c\<lparr>x := Some a\<rparr>" a pos u] by simp

lemma get4_upd:
  "4 \<le> unat (size_c c) \<Longrightarrow> unat (size_c c) \<le> length a \<Longrightarrow> unat pos + 4 \<le> unat (size_c c)
   \<Longrightarrow> get4 (c\<lparr>x := Some a\<rparr>) pos = Inr (rd4 a (unat pos))"
  using get4_Inr[of "c\<lparr>x := Some a\<rparr>" a pos] by simp

lemma poke_upd:
  "p + length bs \<le> length a \<Longrightarrow> poke (c\<lparr>x := Some a\<rparr>) p bs = Inr (c\<lparr>x := Some (store a p bs)\<rparr>)"
  using poke_Inr[of "c\<lparr>x := Some a\<rparr>" a p bs] by simp

text \<open>The three guarded and three unguarded writes of the entry, one after the
  other.\<close>

lemma write_entry_steps:
  assumes sz: "4 \<le> unat (size_c c)" "unat (size_c c) \<le> length a"
    and fit: "unat wr + 20 + length key + length data \<le> unat (size_c c)"
    and small: "unat (size_c c) \<le> 1000000000"
  shows "set4 (c\<lparr>x := Some a\<rparr>) wr link = Inr (c\<lparr>x := Some (store a (unat wr) (uint32_pack link))\<rparr>)"
    and "set4 (c\<lparr>x := Some (store a (unat wr) (uint32_pack link))\<rparr>) (wr + 4) kl
         = Inr (c\<lparr>x := Some (store (store a (unat wr) (uint32_pack link)) (unat wr + 4) (uint32_pack kl))\<rparr>)"
    and "set4 (c\<lparr>x := Some (store (store a (unat wr) (uint32_pack link)) (unat wr + 4) (uint32_pack kl))\<rparr>)
           (wr + 8) dl
         = Inr (c\<lparr>x := Some (store (store (store a (unat wr) (uint32_pack link)) (unat wr + 4)
                   (uint32_pack kl)) (unat wr + 8) (uint32_pack dl))\<rparr>)"
proof -
  have u4: "unat (wr + 4) = unat wr + 4" using unat_add32[of wr 4] fit small by simp
  have u8: "unat (wr + 8) = unat wr + 8" using unat_add32[of wr 8] fit small by simp
  show "set4 (c\<lparr>x := Some a\<rparr>) wr link = Inr (c\<lparr>x := Some (store a (unat wr) (uint32_pack link))\<rparr>)"
    using sz fit by (intro set4_upd) simp_all
  show "set4 (c\<lparr>x := Some (store a (unat wr) (uint32_pack link))\<rparr>) (wr + 4) kl
         = Inr (c\<lparr>x := Some (store (store a (unat wr) (uint32_pack link)) (unat wr + 4) (uint32_pack kl))\<rparr>)"
    using set4_upd[of c "store a (unat wr) (uint32_pack link)" "wr + 4" kl] sz fit u4 by simp
  show "set4 (c\<lparr>x := Some (store (store a (unat wr) (uint32_pack link)) (unat wr + 4) (uint32_pack kl))\<rparr>)
           (wr + 8) dl
         = Inr (c\<lparr>x := Some (store (store (store a (unat wr) (uint32_pack link)) (unat wr + 4)
                   (uint32_pack kl)) (unat wr + 8) (uint32_pack dl))\<rparr>)"
    using set4_upd[of c "store (store a (unat wr) (uint32_pack link)) (unat wr + 4) (uint32_pack kl)"
        "wr + 8" dl] sz fit u8 by simp
qed

lemma cycle_stats_add_ttl_fields [simp]:
  "x (cycle_stats_add_ttl c ttl) = x c" "size_c (cycle_stats_add_ttl c ttl) = size_c c"
  "hsize (cycle_stats_add_ttl c ttl) = hsize c" "writer (cycle_stats_add_ttl c ttl) = writer c"
  "oldest (cycle_stats_add_ttl c ttl) = oldest c" "unused (cycle_stats_add_ttl c ttl) = unused c"
  "options (cycle_stats_add_ttl c ttl) = options c"
  "cycle_last_ratio (cycle_stats_add_ttl c ttl) = cycle_last_ratio c"
  by (simp_all add: cycle_stats_add_ttl_def Let_def)

text \<open>The head slot of a bucket holds 0 or the offset of the newest entry of its
  chain.\<close>

lemma chain_head:
  assumes inv: "arena_inv a hs hi L" and b: "b < hs" "unat b mod 4 = 0"
  shows "(chain_list a hs L b = [] \<and> rd4 a (unat b) = 0)
       \<or> (chain_list a hs L b \<noteq> [] \<and> rd4 a (unat b) \<noteq> 0
           \<and> unat (rd4 a (unat b)) = hd (chain_list a hs L b)
           \<and> hd (chain_list a hs L b) \<in> set L)"
proof -
  let ?C = "chain_list a hs L b" and ?h = "rd4 a (unat b)"
  from inv have hs: "4 \<le> unat hs" and hi: "hi \<le> 1000000000"
    and sep: "separated a (unat hs) hi L" and ch: "chains_ok a hs L"
    by (simp_all add: arena_inv_def)
  have wC: "walk a b ?h ?C" using chains_okD[OF ch b] .
  show ?thesis
  proof (cases "?C = []")
    case True with wC show ?thesis by simp
  next
    case False
    then have m: "hd ?C \<in> set L" using chain_list_subset[of a hs L b] by auto
    from separated_bounds[OF sep m] elen_ge20[of a "hd ?C"] hi hs
    have r: "hd ?C \<le> 1000000000" "0 < hd ?C" by linarith+
    from walk_hd[OF wC] False have "?h = word_of_nat (hd ?C)" by simp
    then have "unat ?h = hd ?C" using unat_of_nat32[OF r(1)] by simp
    moreover from this r have "?h \<noteq> 0" by auto
    ultimately show ?thesis using False m by simp
  qed
qed

text \<open>With room at \<open>writer\<close>, the statements after the loop store the entry and keep
  the invariant; the new entry is the newest one and the head of its chain.\<close>

lemma append_entry_inv:
  assumes inv: "cache_inv c"
    and valid: "length key \<le> 1000" "length data \<le> 1000000"
    and room: "unat (writer c) + (length key + length data + 20) \<le> unat (oldest c)"
  shows "\<exists>c' a a'. append_entry e c key data ttl = Inr c' \<and> cache_inv c'
          \<and> x c = Some a \<and> x c' = Some a'
          \<and> size_c c' = size_c c \<and> hsize c' = hsize c \<and> options c' = options c
          \<and> oldest c' = oldest c \<and> unused c' = unused c
          \<and> cycle_last_ratio c' = cycle_last_ratio c
          \<and> unat (writer c') = unat (writer c) + (length key + length data + 20)
          \<and> live c' = live c @ [unat (writer c)]
          \<and> klen a' (unat (writer c)) = length key \<and> dlen a' (unat (writer c)) = length data
          \<and> key_at a' (unat (writer c)) = key \<and> data_at a' (unat (writer c)) = data
          \<and> expire_at a' (unat (writer c)) = tai_add (tai_uint ttl) (tai_now e)
          \<and> rd4 a' (unat (hash c key)) = writer c
          \<and> (\<forall>f\<in>set (live c). agree a a' (f + 4) (f + elen a f))"
proof -
  from inv obtain a old new where a: "x c = Some a"
    and sz: "100 \<le> unat (size_c c)" "unat (size_c c) \<le> 1000000000" "unat (size_c c) \<le> length a"
    and cur: "cursor_inv c"
    and old: "region a (unat (oldest c)) (unat (unused c)) = Some old"
    and new: "region a (unat (hsize c)) (unat (writer c)) = Some new"
    and lv: "live c = old @ new"
    and ar: "arena_inv a (hsize c) (unat (size_c c)) (old @ new)"
    by (rule cache_invD)
  note cd = cursor_invD[OF cur]
  define w where "w = unat (writer c)"
  define len where "len = length key + length data + 20"
  define b where "b = bucket (hsize c) key"
  define h where "h = rd4 a (unat b)"
  define expire where "expire = tai_add (tai_uint ttl) (tai_now e)"
  define a1 where "a1 = (if h \<noteq> 0
      then store a (unat h) (uint32_pack (rd4 a (unat h) XOR b XOR word_of_nat w)) else a)"
  define a2 where "a2 = write_entry a1 w (h XOR b) key data expire"
  define a3 where "a3 = store a2 (unat b) (uint32_pack (word_of_nat w))"
  have wlen: "w + len \<le> unat (size_c c)" using room cd by (simp add: w_def len_def)
  have hw: "unat (hsize c) \<le> w" using cd by (simp add: w_def)
  have gap: "f + elen a f \<le> w \<or> w + len \<le> f" if "f \<in> set (old @ new)" for f
  proof (cases "f \<in> set old")
    case True
    from region_bounds[OF old True] room show ?thesis by (simp add: w_def len_def)
  next
    case False
    with that have "f \<in> set new" by simp
    from region_bounds[OF new this] show ?thesis by (simp add: w_def)
  qed
  note ap = append_arena(1-9)[OF ar hw wlen len_def gap, where expire = expire,
      folded b_def, folded h_def, folded a1_def, folded a2_def, folded a3_def]
  have hs4: "4 \<le> unat (hsize c)" using cursor_inv_hsize[OF cur] by simp
  have ap10: "unat h + 4 \<le> unat (size_c c)" if "h \<noteq> 0"
  proof -
    have "b < hsize c" "unat b mod 4 = 0"
      using bucket_lt[OF hs4] bucket_aligned by (simp_all add: b_def)
    from chain_head[OF ar this] that have "unat h \<in> set (old @ new)" by (auto simp: h_def)
    
    moreover have "separated a (unat (hsize c)) (unat (size_c c)) (old @ new)"
      using ar by (simp add: arena_inv_def)
    ultimately have "unat h + elen a (unat h) \<le> unat (size_c c)"
      using separated_bounds by blast
    then show ?thesis using elen_ge20[of a "unat h"] by linarith
  qed
  have hb: "hash c key = b" by (simp add: hash_bucket b_def)
  have ww: "word_of_nat w = writer c" by (simp add: w_def)
  have b4: "unat b + 4 \<le> unat (size_c c)"
    using bucket_le[OF hs4, of key] hw wlen by (simp add: b_def)
  have sz4: "4 \<le> unat (size_c c)" using sz by simp
  have kl: "unat (word_of_nat (length key) :: uint32) = length key"
    using valid by (intro unat_of_nat32) simp
  have dl: "unat (word_of_nat (length data) :: uint32) = length data"
    using valid by (intro unat_of_nat32) simp
  have kd: "unat (word_of_nat (length key) + word_of_nat (length data) :: uint32)
      = length key + length data"
    using unat_add32[of "word_of_nat (length key)" "word_of_nat (length data)"] kl dl valid by simp
  have el: "unat (word_of_nat (length key) + word_of_nat (length data) + 20 :: uint32) = len"
    using unat_add32[of "word_of_nat (length key) + word_of_nat (length data)" 20] kd valid
    by (simp add: len_def)
  have cx: "c\<lparr>x := Some a\<rparr> = c" using a by simp
  have l1: "length a1 = length a"
  proof (cases "h = 0")
    case True then show ?thesis by (simp add: a1_def)
  next
    case False
    with ap10 sz have "unat h + 4 \<le> length a" by simp
    then show ?thesis using False by (simp add: a1_def)
  qed
  have g1: "get4 c (hash c key) = Inr h"
    using get4_Inr[OF a sz4 sz(3), of b] b4 by (simp add: hb h_def)
  have s1: "(if h \<noteq> 0
            then (case get4 c h of
                    Inl f \<Rightarrow> Inl f
                  | Inr l \<Rightarrow> set4 c h (l XOR hash c key XOR writer c))
            else Inr c) = Inr (c\<lparr>x := Some a1\<rparr>)"
  proof (cases "h = 0")
    case True then show ?thesis using cx by (simp add: a1_def)
  next
    case False
    from ap10[OF False] have h4: "unat h + 4 \<le> unat (size_c c)" .
    have "get4 c h = Inr (rd4 a (unat h))" using get4_Inr[OF a sz4 sz(3) h4] .
    moreover have "set4 c h (rd4 a (unat h) XOR b XOR writer c) = Inr (c\<lparr>x := Some a1\<rparr>)"
      using set4_Inr[OF a sz4 sz(3) h4] False by (simp add: a1_def ww)
    ultimately show ?thesis using False by (simp add: hb)
  qed
  have sz1: "unat (size_c c) \<le> length a1" using sz l1 by simp
  have fit: "unat (writer c) + 20 + length key + length data \<le> unat (size_c c)"
    using wlen by (simp add: w_def len_def)
  note ws = write_entry_steps[OF sz4 sz1 fit sz(2)]
  define s3 where "s3 = store (store (store a1 (unat (writer c)) (uint32_pack (h XOR b)))
      (unat (writer c) + 4) (uint32_pack (word_of_nat (length key))))
      (unat (writer c) + 8) (uint32_pack (word_of_nat (length data)))"
  have ls3: "length s3 = length a1" using fit sz1 by (simp add: s3_def)
  define s4 where "s4 = store s3 (unat (writer c) + 12) (tai_pack expire)"
  have ls4: "length s4 = length a1" using fit sz1 ls3 by (simp add: s4_def)
  define s5 where "s5 = store s4 (unat (writer c) + 20) key"
  have ls5: "length s5 = length a1" using fit sz1 ls4 by (simp add: s5_def)
  have p1: "poke (c\<lparr>x := Some s3\<rparr>) (unat (writer c) + 12) (tai_pack expire) = Inr (c\<lparr>x := Some s4\<rparr>)"
    unfolding s4_def using fit sz1 ls3 by (intro poke_upd) simp
  have p2: "poke (c\<lparr>x := Some s4\<rparr>) (unat (writer c) + 20) key = Inr (c\<lparr>x := Some s5\<rparr>)"
    unfolding s5_def using fit sz1 ls4 by (intro poke_upd) simp
  have a2eq: "a2 = store s5 (unat (writer c) + 20 + length key) data"
    by (simp add: a2_def write_entry_def s5_def s4_def s3_def w_def)
  have p3: "poke (c\<lparr>x := Some s5\<rparr>) (unat (writer c) + 20 + length key) data = Inr (c\<lparr>x := Some a2\<rparr>)"
    unfolding a2eq using fit sz1 ls5 by (intro poke_upd) simp
  have l2: "length a2 = length a1" using fit sz1 ls5 by (simp add: a2eq)
  define c7 where "c7 = cycle_stats_add_ttl (c\<lparr>x := Some a2\<rparr>) ttl"
  have s8: "set4 c7 (hash c key) (writer c) = Inr (c7\<lparr>x := Some a3\<rparr>)"
    using set4_Inr[of c7 a2 b "writer c"] sz4 sz1 l2 b4 by (simp add: c7_def hb a3_def ww)
  define c' where "c' = c7\<lparr>x := Some a3,
      writer := writer c7 + (word_of_nat (length key) + word_of_nat (length data) + 20),
      cache_motion := cache_motion c7
        + ucast (word_of_nat (length key) + word_of_nat (length data) + 20 :: uint32)\<rparr>"
  have res: "append_entry e c key data ttl = Inr c'"
    unfolding append_entry_def Let_def
    using g1 s1 ws p1 p2 p3 s8
    by (simp add: hb s3_def[symmetric] expire_def[symmetric] c7_def[symmetric] c'_def)
  have wr': "unat (writer c') = w + len"
    using unat_add32[of "writer c" "word_of_nat (length key) + word_of_nat (length data) + 20"]
      el wlen sz by (simp add: c'_def c7_def w_def)
  have el3: "\<And>f. f \<in> set (old @ new) \<Longrightarrow> elen a3 f = elen a f"
    using fields_agree(3)[OF ap(3)] .
  have elw: "elen a3 w = len" using ap(4,5) by (simp add: elen_def len_def)
  have ro: "region a3 (unat (oldest c)) (unat (unused c)) = Some old"
    using region_cong[OF old, of a3] el3 by simp
  have rn: "region a3 (unat (hsize c)) w = Some new"
    using region_cong[OF new, of a3] el3 by (simp add: w_def)
  have rn': "region a3 (unat (hsize c)) (w + len) = Some (new @ [w])"
    using region_snoc[OF rn] elw by simp
  have cur': "cursor_inv c'"
    using cur cd wr' room unfolding cursor_inv_def
    by (simp add: c'_def c7_def word_le_nat_alt w_def len_def)
  have inv': "cache_inv c'"
  proof (rule cache_invI[where a = a3 and old = old and new = "new @ [w]"])
    show "x c' = Some a3" by (simp add: c'_def)
    show "100 \<le> unat (size_c c')" "unat (size_c c') \<le> 1000000000"
      using sz by (simp_all add: c'_def c7_def)
    show "unat (size_c c') \<le> length a3" using sz ap(2) by (simp add: c'_def c7_def)
    show "cursor_inv c'" by (rule cur')
    show "region a3 (unat (oldest c')) (unat (unused c')) = Some old"
      using ro by (simp add: c'_def c7_def)
    show "region a3 (unat (hsize c')) (unat (writer c')) = Some (new @ [w])"
      using rn' wr' by (simp add: c'_def c7_def)
    show "chains_ok a3 (hsize c') (old @ new @ [w])"
      using ap(1) by (simp add: arena_inv_def c'_def c7_def)
  qed
  have lv': "live c' = live c @ [unat (writer c)]"
    using live_eq[of c' a3 old "new @ [w]"] ro rn' wr' lv by (simp add: c'_def c7_def w_def)
  have "size_c c' = size_c c" "hsize c' = hsize c" "options c' = options c"
    "oldest c' = oldest c" "unused c' = unused c" "cycle_last_ratio c' = cycle_last_ratio c"
    "x c' = Some a3"
    by (simp_all add: c'_def c7_def)
  moreover have "rd4 a3 (unat (hash c key)) = writer c" using ap(9) by (simp add: hb ww)
  moreover have "\<forall>f\<in>set (live c). agree a a3 (f + 4) (f + elen a f)" using ap(3) lv by simp
  ultimately show ?thesis
    using res inv' a wr' lv' ap(4,5,6,7,8)
    by (intro exI[of _ c'] exI[of _ a] exI[of _ a3]) (simp add: w_def len_def expire_def)
qed


section \<open>cache_t_set\<close>

lemma entrylen_unat:
  assumes "length key \<le> 1000" "length data \<le> 1000000"
  shows "unat (word_of_nat (length key) + word_of_nat (length data) + 20 :: uint32)
           = length key + length data + 20"
proof -
  have kl: "unat (word_of_nat (length key) :: uint32) = length key"
    using assms by (intro unat_of_nat32) simp
  have dl: "unat (word_of_nat (length data) :: uint32) = length data"
    using assms by (intro unat_of_nat32) simp
  have kd: "unat (word_of_nat (length key) + word_of_nat (length data) :: uint32)
      = length key + length data"
    using unat_add32[of "word_of_nat (length key)" "word_of_nat (length data)"] kl dl assms by simp
  show ?thesis
    using unat_add32[of "word_of_nat (length key) + word_of_nat (length data)" 20] kd assms
    by simp
qed

lemma clamp_ttl_idem:
  "(if (if (ttl::uint32) > 604800 then 604800 else ttl) > 604800 then 604800
    else (if ttl > 604800 then 604800 else ttl)) = (if ttl > 604800 then 604800 else ttl)"
  by simp

text \<open>One pass through the body of \<open>cache_t_set\<close> for a valid entry: the loop
  returns, and then either the entry is written, or it is given up, or the arena has
  been resized and the function calls itself.\<close>

lemma set_once:
  fixes ttl1 :: uint32
  assumes inv: "cache_inv c" and valid: "length key \<le> 1000" "length data \<le> 1000000"
  shows "\<exists>r0. set_loop e (word_of_nat (length key) + word_of_nat (length data) + 20) c
              = Some (Inr r0)
          \<and> (case r0 of
                Room c1 \<Rightarrow>
                  (\<exists>c2. append_entry e c1 key data ttl1 = Inr c2
                     \<and> set_post c2 key data (tai_add (tai_uint ttl1) (tai_now e))
                     \<and> options c2 = options c)
              | Gave_up c1 \<Rightarrow>
                  set_post c1 key data (tai_add (tai_uint ttl1) (tai_now e))
                  \<and> options c1 = options c
              | Resized c1 \<Rightarrow>
                  cache_inv c1 \<and> options c1 = options c \<and> cycle_last_ratio c1 = 0
                  \<and> \<not> quiet c \<and> (heap_env e \<noteq> None \<longrightarrow> fresh_arena c1))"
proof -
  define entrylen :: uint32 where
    "entrylen = word_of_nat (length key) + word_of_nat (length data) + 20"
  have el: "unat entrylen = length key + length data + 20"
    unfolding entrylen_def using valid by (rule entrylen_unat)
  then have el': "unat entrylen \<le> 1001020" using valid by simp
  from set_loop_total[OF inv el', of e] obtain r0 where
    r0: "set_loop e entrylen c = Some (Inr r0)" "loop_post e entrylen c r0" by blast
  have "case r0 of
          Room c1 \<Rightarrow>
            (\<exists>c2. append_entry e c1 key data ttl1 = Inr c2
               \<and> set_post c2 key data (tai_add (tai_uint ttl1) (tai_now e))
               \<and> options c2 = options c)
        | Gave_up c1 \<Rightarrow>
            set_post c1 key data (tai_add (tai_uint ttl1) (tai_now e))
            \<and> options c1 = options c
        | Resized c1 \<Rightarrow>
            cache_inv c1 \<and> options c1 = options c \<and> cycle_last_ratio c1 = 0
            \<and> \<not> quiet c \<and> (heap_env e \<noteq> None \<longrightarrow> fresh_arena c1)"
  proof (cases r0)
    case (Room c1)
    with r0(2) have p: "cache_inv c1" "unat (writer c1) + unat entrylen \<le> unat (oldest c1)"
        "size_c c1 = size_c c" "hsize c1 = hsize c" "options c1 = options c"
      by (simp_all add: loop_post_def)
    have room: "unat (writer c1) + (length key + length data + 20) \<le> unat (oldest c1)"
      using p(2) el by simp
    from append_entry_inv[OF p(1) valid room, of e ttl1] obtain c2 a a' where
      ap: "append_entry e c1 key data ttl1 = Inr c2" "cache_inv c2"
        "x c2 = Some a'" "size_c c2 = size_c c1" "hsize c2 = hsize c1" "options c2 = options c1"
        "oldest c2 = oldest c1"
        "unat (writer c2) = unat (writer c1) + (length key + length data + 20)"
        "live c2 = live c1 @ [unat (writer c1)]"
        "klen a' (unat (writer c1)) = length key" "dlen a' (unat (writer c1)) = length data"
        "key_at a' (unat (writer c1)) = key" "data_at a' (unat (writer c1)) = data"
        "expire_at a' (unat (writer c1)) = tai_add (tai_uint ttl1) (tai_now e)"
        "rd4 a' (unat (hash c1 key)) = writer c1"
      by blast
    have hh: "hash c2 key = hash c1 key" using ap(5) by (simp add: hash_def)
    have st: "stored c2 key data (tai_add (tai_uint ttl1) (tai_now e))"
      unfolding stored_def
      using ap(3,8,9,10,11,12,13,14,15) hh
      by (intro exI[of _ a'] exI[of _ "live c1"] exI[of _ "unat (writer c1)"]) simp
    from p(1) have "cursor_inv c1" by (rule cache_invD)
    note cd = cursor_invD[OF this]
    have "fits c2 key data"
      using cd room ap(4,5) by (simp add: fits_def)
    then have "set_post c2 key data (tai_add (tai_uint ttl1) (tai_now e))"
      using ap(2) st by (simp add: set_post_def)
    then show ?thesis using Room ap(1,6) p(5) by simp
  next
    case (Gave_up c1)
    with r0(2) have p: "cache_inv c1" "live c1 = []"
        "unat (size_c c1) < unat (hsize c1) + unat entrylen" "options c1 = options c"
      by (auto simp: loop_post_def)
    have "\<not> fits c1 key data" using p(3) el by (simp add: fits_def)
    then have "set_post c1 key data (tai_add (tai_uint ttl1) (tai_now e))"
      using p(1,2) by (simp add: set_post_def)
    then show ?thesis using Gave_up p(4) by simp
  next
    case (Resized c1)
    with r0(2) show ?thesis by (auto simp: loop_post_def)
  qed
  with r0(1) show ?thesis unfolding entrylen_def by blast
qed

text \<open>The body of \<open>cache_t_set\<close> for a valid entry in a cache that satisfies the
  invariant.\<close>

lemma cache_t_set_unfold:
  assumes "cache_inv c" "length key \<le> 1000" "length data \<le> 1000000"
  shows "cache_t_set envs (Some c) key data ttl =
      (case set_loop (envs 0) (word_of_nat (length key) + word_of_nat (length data) + 20) c of
         None \<Rightarrow> None
       | Some (Inl f) \<Rightarrow> Some (Inl f)
       | Some (Inr (Gave_up c1)) \<Rightarrow> Some (Inr (Some c1))
       | Some (Inr (Resized c1)) \<Rightarrow>
           cache_t_set (\<lambda>i. envs (Suc i)) (Some c1) key data (if ttl > 604800 then 604800 else ttl)
       | Some (Inr (Room c1)) \<Rightarrow>
           (case append_entry (envs 0) c1 key data (if ttl > 604800 then 604800 else ttl) of
              Inl f \<Rightarrow> Some (Inl f)
            | Inr c2 \<Rightarrow> Some (Inr (Some c2))))"
proof -
  from assms(1) obtain a where "x c = Some a"
    by (auto simp: cache_inv_def split: option.splits)
  then show ?thesis using assms(2,3)
    by (subst cache_t_set.simps) (simp add: MAXKEYLEN_def MAXDATALEN_def Let_def)
qed

text \<open>Whenever \<open>cache_t_set\<close> returns, started in a cache that satisfies the invariant,
  it returns without a fault and leaves a cache that satisfies the invariant.\<close>

lemma cache_t_set_inv:
  assumes "cache_t_set envs (Some c) key data ttl = Some r" "cache_inv c"
  shows "\<exists>c'. r = Inr (Some c') \<and> cache_inv c' \<and> options c' = options c"
proof -
  define P where "P = (\<lambda>(envs :: nat \<Rightarrow> env) cache (key :: byte list) (data :: byte list)
      (ttl :: uint32) (r :: fault + cache option).
    \<forall>c. cache = Some c \<longrightarrow> cache_inv c \<longrightarrow>
      (\<exists>c'. r = Inr (Some c') \<and> cache_inv c' \<and> options c' = options c))"
  have "P envs (Some c) key data ttl r"
  proof (rule cache_t_set.raw_induct[where P = P, OF _ assms(1)], goal_cases)
    case (1 f envs cache key data ttl r)
    show ?case unfolding P_def
    proof (intro allI impI)
      fix c assume c: "cache = Some c" and inv: "cache_inv c"
      note ih = 1(1)[unfolded P_def, rule_format]
      note bd = 1(2)[unfolded c option.case]
      show "\<exists>c'. r = Inr (Some c') \<and> cache_inv c' \<and> options c' = options c"
      proof (cases "length key \<le> 1000 \<and> length data \<le> 1000000")
        case False
        from inv obtain a where "x c = Some a"
          by (auto simp: cache_inv_def split: option.splits)
        with False bd have "r = Inr (Some c)"
          by (auto simp: MAXKEYLEN_def MAXDATALEN_def split: if_splits)
        with inv show ?thesis by simp
      next
        case True
        then have valid: "length key \<le> 1000" "length data \<le> 1000000" by simp_all
        define ttl1 where "ttl1 = (if 604800 < ttl then 604800 else ttl)"
        define entrylen :: uint32 where
          "entrylen = word_of_nat (length key) + word_of_nat (length data) + 20"
        from inv obtain a where a: "x c = Some a"
          by (auto simp: cache_inv_def split: option.splits)
        from set_once[OF inv valid, of "envs 0" ttl1] obtain r0 where
          r0: "set_loop (envs 0) entrylen c = Some (Inr r0)"
          and post: "case r0 of
                    Room c1 \<Rightarrow>
                      (\<exists>c2. append_entry (envs 0) c1 key data ttl1 = Inr c2
                         \<and> set_post c2 key data (tai_add (tai_uint ttl1) (tai_now (envs 0)))
                         \<and> options c2 = options c)
                  | Gave_up c1 \<Rightarrow>
                      set_post c1 key data (tai_add (tai_uint ttl1) (tai_now (envs 0)))
                      \<and> options c1 = options c
                  | Resized c1 \<Rightarrow>
                      cache_inv c1 \<and> options c1 = options c \<and> cycle_last_ratio c1 = 0
                      \<and> \<not> quiet c \<and> (heap_env (envs 0) \<noteq> None \<longrightarrow> fresh_arena c1)"
          unfolding entrylen_def by blast
        have body: "(case r0 of
                Room c1 \<Rightarrow> (case append_entry (envs 0) c1 key data ttl1 of
                              Inl f \<Rightarrow> Some (Inl f) | Inr c2 \<Rightarrow> Some (Inr (Some c2)))
              | Gave_up c1 \<Rightarrow> Some (Inr (Some c1))
              | Resized c1 \<Rightarrow> f (\<lambda>i. envs (Suc i)) (Some c1) key data ttl1) = Some r"
          using bd a valid r0 unfolding ttl1_def entrylen_def
          by (simp add: MAXKEYLEN_def MAXDATALEN_def Let_def)
        show ?thesis
        proof (cases r0)
          case (Room c1)
          with post body show ?thesis by (auto simp: set_post_def)
        next
          case (Gave_up c1)
          with post body show ?thesis by (auto simp: set_post_def)
        next
          case (Resized c1)
          with post body have "f (\<lambda>i. envs (Suc i)) (Some c1) key data ttl1 = Some r"
            "cache_inv c1" "options c1 = options c" by simp_all
          from ih[OF this(1) refl this(2)] this(3) show ?thesis by simp
        qed
      qed
    qed
  qed
  with assms(2) show ?thesis by (simp add: P_def)
qed

lemma reachable_inv: "reachable c \<Longrightarrow> cache_inv c"
proof (induction rule: reachable.induct)
  case (fresh heap now c0 cachesize opts c)
  then show ?case by (rule init_inv)
next
  case (step c envs key data ttl c')
  from cache_t_set_inv[OF step(2) step(3)] show ?case by simp
qed

text \<open>In a cache on which the sizer cannot decide to resize, \<open>cache_t_set\<close> returns
  after one pass; otherwise it returns after the second pass at the latest, provided that
  no callback is installed or the first allocation succeeds.\<close>

lemma cache_t_set_quiet:
  assumes inv: "cache_inv c" and valid: "length key \<le> 1000" "length data \<le> 1000000"
    and q: "quiet c"
  shows "\<exists>c'. cache_t_set envs (Some c) key data ttl = Some (Inr (Some c'))
            \<and> set_post c' key data
                 (tai_add (tai_uint (if ttl > 604800 then 604800 else ttl)) (tai_now (envs 0)))
            \<and> options c' = options c"
proof -
  define ttl1 where "ttl1 = (if 604800 < ttl then 604800 else ttl)"
  from set_once[OF inv valid, of "envs 0" ttl1] obtain r0 where
    r0: "set_loop (envs 0) (word_of_nat (length key) + word_of_nat (length data) + 20) c
           = Some (Inr r0)"
    and post: "case r0 of
                Room c1 \<Rightarrow>
                  (\<exists>c2. append_entry (envs 0) c1 key data ttl1 = Inr c2
                     \<and> set_post c2 key data (tai_add (tai_uint ttl1) (tai_now (envs 0)))
                     \<and> options c2 = options c)
              | Gave_up c1 \<Rightarrow>
                  set_post c1 key data (tai_add (tai_uint ttl1) (tai_now (envs 0)))
                  \<and> options c1 = options c
              | Resized c1 \<Rightarrow>
                  cache_inv c1 \<and> options c1 = options c \<and> cycle_last_ratio c1 = 0
                  \<and> \<not> quiet c \<and> (heap_env (envs 0) \<noteq> None \<longrightarrow> fresh_arena c1)"
    by blast
  note unf = cache_t_set_unfold[OF inv valid, of envs ttl, folded ttl1_def]
  show ?thesis
  proof (cases r0)
    case (Room c1)
    with post r0 unf show ?thesis unfolding ttl1_def[symmetric] by auto
  next
    case (Gave_up c1)
    with post r0 unf show ?thesis unfolding ttl1_def[symmetric] by auto
  next
    case (Resized c1)
    with post q show ?thesis by simp
  qed
qed

lemma cache_t_set_post:
  assumes inv: "cache_inv c" and valid: "length key \<le> 1000" "length data \<le> 1000000"
    and tc: "resize_callback (options c) = None \<or> heap_env (envs 0) \<noteq> None"
  shows "\<exists>c' i. cache_t_set envs (Some c) key data ttl = Some (Inr (Some c'))
            \<and> set_post c' key data
                 (tai_add (tai_uint (if ttl > 604800 then 604800 else ttl)) (tai_now (envs i)))
            \<and> options c' = options c"
proof -
  define ttl1 where "ttl1 = (if 604800 < ttl then 604800 else ttl)"
  have idem: "(if 604800 < ttl1 then 604800 else ttl1) = ttl1" by (simp add: ttl1_def)
  from set_once[OF inv valid, of "envs 0" ttl1] obtain r0 where
    r0: "set_loop (envs 0) (word_of_nat (length key) + word_of_nat (length data) + 20) c
           = Some (Inr r0)"
    and post: "case r0 of
                Room c1 \<Rightarrow>
                  (\<exists>c2. append_entry (envs 0) c1 key data ttl1 = Inr c2
                     \<and> set_post c2 key data (tai_add (tai_uint ttl1) (tai_now (envs 0)))
                     \<and> options c2 = options c)
              | Gave_up c1 \<Rightarrow>
                  set_post c1 key data (tai_add (tai_uint ttl1) (tai_now (envs 0)))
                  \<and> options c1 = options c
              | Resized c1 \<Rightarrow>
                  cache_inv c1 \<and> options c1 = options c \<and> cycle_last_ratio c1 = 0
                  \<and> \<not> quiet c \<and> (heap_env (envs 0) \<noteq> None \<longrightarrow> fresh_arena c1)"
    by blast
  note unf = cache_t_set_unfold[OF inv valid, of envs ttl, folded ttl1_def]
  show ?thesis
  proof (cases r0)
    case (Room c1)
    with post r0 unf show ?thesis unfolding ttl1_def[symmetric] by auto
  next
    case (Gave_up c1)
    with post r0 unf show ?thesis unfolding ttl1_def[symmetric] by auto
  next
    case (Resized c1)
    with post have c1: "cache_inv c1" "options c1 = options c" "cycle_last_ratio c1 = 0"
      "heap_env (envs 0) \<noteq> None \<longrightarrow> fresh_arena c1" by simp_all
    have "quiet c1" using tc c1 by (auto simp: quiet_def fresh_arena_def)
    from cache_t_set_quiet[OF c1(1) valid this, of "\<lambda>i. envs (Suc i)" ttl1] obtain c' where
      "cache_t_set (\<lambda>i. envs (Suc i)) (Some c1) key data ttl1 = Some (Inr (Some c'))"
      "set_post c' key data (tai_add (tai_uint ttl1) (tai_now (envs (Suc 0))))"
      "options c' = options c1"
      unfolding idem by blast
    moreover have "cache_t_set envs (Some c) key data ttl
        = cache_t_set (\<lambda>i. envs (Suc i)) (Some c1) key data ttl1"
      using unf r0 Resized by simp
    ultimately show ?thesis using c1(2) unfolding ttl1_def[symmetric] by auto
  qed
qed


text \<open>A call of \<open>cache_t_set\<close> on which the sizer cannot decide to resize leaves the
  size of the arena and of the head table as they are.\<close>

lemma cache_t_set_quiet_size:
  assumes inv: "cache_inv c" and valid: "length key \<le> 1000" "length data \<le> 1000000"
    and q: "quiet c"
    and s: "cache_t_set envs (Some c) key data ttl = Some (Inr (Some c'))"
  shows "size_c c' = size_c c \<and> hsize c' = hsize c"
proof -
  define ttl1 where "ttl1 = (if 604800 < ttl then 604800 else ttl)"
  define entrylen :: uint32 where
    "entrylen = word_of_nat (length key) + word_of_nat (length data) + 20"
  have el: "unat entrylen = length key + length data + 20"
    unfolding entrylen_def using valid by (rule entrylen_unat)
  then have el': "unat entrylen \<le> 1001020" using valid by simp
  from set_loop_total[OF inv el', of "envs 0"] obtain r0 where
    r0: "set_loop (envs 0) entrylen c = Some (Inr r0)" "loop_post (envs 0) entrylen c r0"
    by blast
  note unf = cache_t_set_unfold[OF inv valid, of envs ttl, folded ttl1_def entrylen_def]
  show ?thesis
  proof (cases r0)
    case (Room c1)
    with r0(2) have p: "cache_inv c1" "unat (writer c1) + unat entrylen \<le> unat (oldest c1)"
        "size_c c1 = size_c c" "hsize c1 = hsize c"
      by (simp_all add: loop_post_def)
    have room: "unat (writer c1) + (length key + length data + 20) \<le> unat (oldest c1)"
      using p(2) el by simp
    from append_entry_inv[OF p(1) valid room, of "envs 0" ttl1] obtain c2 where
      ap: "append_entry (envs 0) c1 key data ttl1 = Inr c2"
        "size_c c2 = size_c c1" "hsize c2 = hsize c1"
      by blast
    from unf r0(1) Room ap(1) s have "c' = c2" by simp
    with ap p show ?thesis by simp
  next
    case (Gave_up c1)
    with r0(2) have p: "size_c c1 = size_c c" "hsize c1 = hsize c"
      by (auto simp: loop_post_def)
    from unf r0(1) Gave_up s have "c' = c1" by simp
    with p show ?thesis by simp
  next
    case (Resized c1)
    with r0(2) q show ?thesis by (simp add: loop_post_def)
  qed
qed


section \<open>cache_t_get\<close>

text \<open>What \<open>cache_t_get\<close> finds at an entry that lies inside the arena.\<close>

lemma get_match_entry:
  assumes a: "x c = Some a" and sz: "unat (size_c c) \<le> length a" "unat (size_c c) \<le> 1000000000"
    and p: "4 \<le> p" "p + elen a p \<le> unat (size_c c)" and k: "length key \<le> 1000"
  shows "get_match c key now (word_of_nat p) =
     Inr (if key_at a p = key
          then Some (if tai_less (expire_at a p) now then None
                     else Some (data_at a p, rd4 a (p + 8), remaining (expire_at a p) now))
          else None)"
proof -
  have e20: "p + 20 \<le> unat (size_c c)" using p(2) elen_ge20[of a p] by linarith
  have up: "unat (word_of_nat p :: uint32) = p" using e20 sz by (intro unat_of_nat32) simp
  have up4: "unat (word_of_nat p + 4 :: uint32) = p + 4"
    using unat_add32[of "word_of_nat p :: uint32" 4] up e20 sz by simp
  have up8: "unat (word_of_nat p + 8 :: uint32) = p + 8"
    using unat_add32[of "word_of_nat p :: uint32" 8] up e20 sz by simp
  have uk: "unat (word_of_nat (length key) :: uint32) = length key"
    using k by (intro unat_of_nat32) simp
  have g4: "get4 c (word_of_nat p + 4) = Inr (rd4 a (p + 4))"
    using get4_Inr[OF a _ sz(1), of "word_of_nat p + 4"] up4 e20 by simp
  have g8: "get4 c (word_of_nat p + 8) = Inr (rd4 a (p + 8))"
    using get4_Inr[OF a _ sz(1), of "word_of_nat p + 8"] up8 e20 by simp
  have kl: "rd4 a (p + 4) = word_of_nat (length key) \<longleftrightarrow> klen a p = length key"
    using uk by (simp add: klen_def word_unat_eq_iff)
  show ?thesis
  proof (cases "klen a p = length key")
    case False
    then have "key_at a p \<noteq> key"
      using p(2) sz(1) by (auto simp: key_at_def load_def elen_def)
    with False kl g4 show ?thesis by (simp add: get_match_def Let_def)
  next
    case True
    have in1: "p + 20 + length key \<le> unat (size_c c)" using p(2) True by (simp add: elen_def)
    have u20: "unat (word_of_nat p + 20 + word_of_nat (length key) :: uint32) = p + 20 + length key"
    proof -
      have "unat (word_of_nat p + 20 :: uint32) = p + 20"
        using unat_add32[of "word_of_nat p :: uint32" 20] up e20 sz by simp
      then show ?thesis
        using unat_add32[of "word_of_nat p + 20 :: uint32" "word_of_nat (length key)"] uk in1 sz
        by simp
    qed
    have nogt: "\<not> word_of_nat p + 20 + word_of_nat (length key) > size_c c"
      using u20 in1 by (simp add: word_less_nat_alt)
    have ka: "key_at a p = load a (p + 20) (length key)" using True by (simp add: key_at_def)
    have dl: "unat (rd4 a (p + 8)) = dlen a p" by (simp add: dlen_def)
    have rest: "unat (size_c c - word_of_nat p - 20 - word_of_nat (length key))
        = unat (size_c c) - p - 20 - length key"
    proof -
      have 1: "unat (size_c c - word_of_nat p) = unat (size_c c) - p"
        using up e20 by (simp add: unat_sub word_le_nat_alt)
      have 2: "unat (size_c c - word_of_nat p - 20) = unat (size_c c) - p - 20"
        using 1 e20 by (simp add: unat_sub word_le_nat_alt)
      show ?thesis using 2 uk in1 by (simp add: unat_sub word_le_nat_alt)
    qed
    have nou: "\<not> rd4 a (p + 8) > size_c c - word_of_nat p - 20 - word_of_nat (length key)"
      using rest dl p(2) True by (simp add: word_less_nat_alt elen_def)
    have da: "data_at a p = load a (p + 20 + length key) (unat (rd4 a (p + 8)))"
      using True by (simp add: data_at_def dlen_def)
    show ?thesis
      using g4 g8 kl True nogt a in1 sz(1) ka nou da up
      by (simp add: get_match_def Let_def expire_at_def remaining_def)
  qed
qed


text \<open>Along a well-formed chain whose entries lie inside the arena, the loop of
  \<open>cache_t_get\<close> does what \<open>get_spec\<close> says, without a fault.\<close>

lemma get_loop_chain:
  assumes a: "x c = Some a" and sz: "unat (size_c c) \<le> length a" "unat (size_c c) \<le> 1000000000"
    and k: "length key \<le> 1000"
    and C: "\<forall>p\<in>set C. 4 \<le> p \<and> p + elen a p \<le> unat (size_c c)"
    and w: "walk a prev pos C"
  shows "get_loop c key now prev pos loop =
     (map word_of_nat (fst (get_spec a key now C loop)), Inr (snd (get_spec a key now C loop)))"
  using C w
proof (induction C arbitrary: prev pos loop)
  case Nil
  then show ?case by (subst get_loop.simps) simp
next
  case (Cons p C)
  from Cons.prems have p: "4 \<le> p" "p + elen a p \<le> unat (size_c c)"
    and C: "\<forall>p\<in>set C. 4 \<le> p \<and> p + elen a p \<le> unat (size_c c)"
    and pos: "pos = word_of_nat p" and w: "walk a (word_of_nat p) (prev XOR rd4 a p) C"
    by simp_all
  have e20: "p + 20 \<le> unat (size_c c)" using p(2) elen_ge20[of a p] by linarith
  have up: "unat (word_of_nat p :: uint32) = p" using e20 sz by (intro unat_of_nat32) simp
  have nz: "(word_of_nat p :: uint32) \<noteq> 0" using up p(1) by (auto simp: word_unat_eq_iff)
  have g: "get4 c (word_of_nat p) = Inr (rd4 a p)"
    using get4_Inr[OF a _ sz(1), of "word_of_nat p"] up e20 by simp
  note m = get_match_entry[OF a sz p k, of now]
  show ?case
  proof (cases "key_at a p = key")
    case True
    then show ?thesis using m nz pos by (subst get_loop.simps) simp
  next
    case False
    show ?thesis
    proof (cases "100 \<le> loop")
      case True
      then show ?thesis using m nz pos False g by (subst get_loop.simps) simp
    next
      case l: False
      from Cons.IH[OF C w, of "Suc loop"] show ?thesis
        using m nz pos False g l
        by (subst get_loop.simps) (simp split: prod.splits)
    qed
  qed
qed

text \<open>In a cache that satisfies the invariant, \<open>cache_t_get\<close> goes through the chain
  of the key's bucket as \<open>get_spec\<close> says.\<close>

lemma cache_t_get_spec:
  assumes inv: "cache_inv c" and a: "x c = Some a" and k: "length key \<le> 1000"
  shows "cache_t_get_trace (Some c) key stamp now =
     (map word_of_nat (fst (get_spec a key now (bucket_chain c (hash c key)) 0)),
      Inr (snd (get_spec a key now (bucket_chain c (hash c key)) 0)))"
proof -
  from inv obtain a' old new where a': "x c = Some a'"
    and sz: "100 \<le> unat (size_c c)" "unat (size_c c) \<le> 1000000000" "unat (size_c c) \<le> length a'"
    and cur: "cursor_inv c" and lv: "live c = old @ new"
    and ar: "arena_inv a' (hsize c) (unat (size_c c)) (old @ new)"
    by (rule cache_invD)
  from a a' have aa: "a' = a" by simp
  note sz = sz[unfolded aa] and ar = ar[unfolded aa]
  note cd = cursor_invD[OF cur]
  have hs4: "4 \<le> unat (hsize c)" using cur by (simp add: cursor_inv_def)
  let ?b = "hash c key"
  have b: "unat ?b + 4 \<le> unat (hsize c)" "unat ?b mod 4 = 0" "?b < hsize c"
    using bucket_le[OF hs4, of key] bucket_aligned[of "hsize c" key] bucket_lt[OF hs4, of key]
    by (simp_all add: hash_bucket)
  have hsz: "unat (hsize c) \<le> unat (size_c c)" using cd by linarith
  have g: "get4 c ?b = Inr (rd4 a (unat ?b))"
    using get4_Inr[OF a _ _, of ?b] sz b(1) hsz by simp
  have w: "walk a ?b (rd4 a (unat ?b)) (bucket_chain c ?b)"
    using inv a b by (simp add: cache_inv_def)
  have sep: "separated a (unat (hsize c)) (unat (size_c c)) (live c)"
    using ar lv by (simp add: arena_inv_def)
  have C: "\<forall>p\<in>set (bucket_chain c ?b). 4 \<le> p \<and> p + elen a p \<le> unat (size_c c)"
  proof
    fix p assume "p \<in> set (bucket_chain c ?b)"
    then have "p \<in> set (live c)" by (simp add: bucket_chain_def)
    from separated_bounds[OF sep this] hs4 show "4 \<le> p \<and> p + elen a p \<le> unat (size_c c)"
      by simp
  qed
  have x: "x c \<noteq> None" using a by simp
  from get_loop_chain[OF a sz(3,2) k C w, of now 0] show ?thesis
    using a k g by (simp add: cache_t_get_trace_def MAXKEYLEN_def Let_def)
qed

text \<open>A lookup of the key in the cache that \<open>cache_t_set\<close> has left.\<close>

lemma get_after_set_post:
  assumes sp: "set_post c key data expire" and k: "length key \<le> 1000"
  shows "cache_t_get (Some c) key stamp now =
     Inr (if fits c key data \<and> \<not> tai_less expire now
          then Some (data, word_of_nat (length data), remaining expire now) else None)"
proof -
  from sp have inv: "cache_inv c" by (simp add: set_post_def)
  then obtain a where a: "x c = Some a" and sz: "unat (size_c c) \<le> 1000000000"
    by (auto elim: cache_invD)
  note spec = cache_t_get_spec[OF inv a k, of stamp now]
  show ?thesis
  proof (cases "fits c key data")
    case False
    with sp have "live c = []" by (simp add: set_post_def)
    then have "bucket_chain c (hash c key) = []" by (simp add: bucket_chain_def)
    with spec False show ?thesis by (simp add: cache_t_get_def)
  next
    case True
    with sp have "stored c key data expire" by (simp add: set_post_def)
    then obtain L w where lv: "live c = L @ [w]"
      and f: "klen a w = length key" "dlen a w = length data" "key_at a w = key"
        "data_at a w = data" "expire_at a w = expire"
      using a by (auto simp: stored_def)
    have "bucket_chain c (hash c key)
        = w # filter (\<lambda>p. hash c (key_at a p) = hash c key) (rev L)"
      using lv a f(3) by (simp add: bucket_chain_def)
    then have gs: "get_spec a key now (bucket_chain c (hash c key)) 0
        = ([w], if tai_less expire now then None
                else Some (data, rd4 a (w + 8), remaining expire now))"
      using f by simp
    have "length data \<le> 1000000000" using True sz by (simp add: fits_def)
    then have "unat (word_of_nat (length data) :: uint32) = length data" by (rule unat_of_nat32)
    with f(2) have "rd4 a (w + 8) = word_of_nat (length data)"
      by (simp add: dlen_def word_unat_eq_iff)
    with spec gs True show ?thesis by (simp add: cache_t_get_def)
  qed
qed

text \<open>\<open>cache_t_set\<close> followed by \<open>cache_t_get\<close>, when the clock shows the second
  \<open>t\<close> during the call of \<open>cache_t_set\<close>.\<close>

lemma set_then_get:
  assumes inv: "cache_inv c" and valid: "length key \<le> 1000" "length data \<le> 1000000"
    and tc: "resize_callback (options c) = None \<or> heap_env (envs 0) \<noteq> None"
    and clock: "\<forall>i. tai_now (envs i) = t"
  shows "\<exists>c'. cache_t_set envs (Some c) key data ttl = Some (Inr (Some c'))
          \<and> cache_inv c'
          \<and> (\<forall>stamp now. cache_t_get (Some c') key stamp now =
                Inr (if fits c' key data
                        \<and> \<not> tai_less (tai_add (tai_uint (if ttl > 604800 then 604800 else ttl)) t) now
                     then Some (data, word_of_nat (length data),
                          remaining (tai_add (tai_uint (if ttl > 604800 then 604800 else ttl)) t) now)
                     else None))"
proof -
  from cache_t_set_post[where envs = envs and ttl = ttl, OF inv valid tc] obtain c' i where
    s: "cache_t_set envs (Some c) key data ttl = Some (Inr (Some c'))"
    and sp: "set_post c' key data
       (tai_add (tai_uint (if ttl > 604800 then 604800 else ttl)) (tai_now (envs i)))"
    by blast
  from clock have "tai_now (envs i) = t" by simp
  with sp have sp': "set_post c' key data
       (tai_add (tai_uint (if ttl > 604800 then 604800 else ttl)) t)" by simp
  from sp' have "cache_inv c'" by (simp add: set_post_def)
  with s get_after_set_post[OF sp' valid(1)] show ?thesis by blast
qed





section \<open>The length of the walk\<close>






section \<open>A call of cache_t_set that does not return\<close>

text \<open>With a callback that approves every resize and an allocator that fails,
  \<open>check_for_resize\<close> answers 1 although \<open>init\<close> has left the cache as it was, and
  \<open>cache_t_set\<close> calls itself with the same arguments on the same cache: the call
  does not return.  The cache is one that \<open>init\<close> and one call of \<open>cache_t_set\<close>
  produce.\<close>

lemma init_eager:
  "init (Some zero_heap) 3 zero_cache 128 (Some eager) = Some (Inr (True, c128\<lparr>options := eager\<rparr>))"
  by (simp add: init_def alloc_def clamp_size_def MAXCACHESIZE_def MINCACHESIZE_def
      hsize_loop.simps store_zero_heap c128_def zero_cache_def)

lemma cache_t_set_never_returns:
  "cache_t_set no_memory stuck [107] (replicate 80 118) 60 = None"
proof (rule ccontr)
  assume "cache_t_set no_memory stuck [107] (replicate 80 118) 60 \<noteq> None"
  then obtain r where r: "cache_t_set no_memory stuck [107] (replicate 80 118) 60 = Some r"
    by auto
  define P where "P = (\<lambda>(envs :: nat \<Rightarrow> env) cache (key :: byte list) (data :: byte list)
      (ttl :: uint32) (r :: fault + cache option).
    \<not> (envs = no_memory \<and> cache = stuck \<and> key = [107] \<and> data = replicate 80 118 \<and> ttl = 60))"
  have "P no_memory stuck [107] (replicate 80 118) 60 r"
  proof (rule cache_t_set.raw_induct[where P = P, OF _ r], goal_cases)
    case (1 f envs cache key data ttl y)
    show ?case unfolding P_def
    proof
      assume a: "envs = no_memory \<and> cache = stuck \<and> key = [107] \<and> data = replicate 80 118
        \<and> ttl = 60"
      have sh: "(\<lambda>i. no_memory (Suc i)) = no_memory" by (simp add: no_memory_def fun_eq_iff)
      have "f (\<lambda>i. no_memory (Suc i)) stuck [107] (replicate 80 118) 60 = Some y"
        using 1(2) a
        by (simp add: stuck_def eager_def no_memory_def model_defs clock_on_def env_on_def
            round_double_def normalise_unfold)
      then have "f no_memory stuck [107] (replicate 80 118) 60 = Some y" by (simp only: sh)
      from 1(1)[OF this] show False by (simp add: P_def)
    qed
  qed
  then show False by (simp add: P_def)
qed


lemma stuck_reachable: "\<exists>c. stuck = Some c \<and> reachable c"
proof -
  have r: "reachable (c128\<lparr>options := eager\<rparr>)" using init_eager by (rule reachable.fresh)
  have h: "length [107 :: byte] \<le> 1000" "length (replicate 80 (118 :: byte)) \<le> 1000000"
    "resize_callback (options (c128\<lparr>options := eager\<rparr>)) = None
       \<or> heap_env (clock_on 10 0) \<noteq> None"
    by (simp_all add: clock_on_def env_on_def)
  from cache_t_set_post[where envs = "clock_on 10" and ttl = 60, OF reachable_inv[OF r] h]
  obtain c where
    c: "cache_t_set (clock_on 10) (Some (c128\<lparr>options := eager\<rparr>)) [107] (replicate 80 118) 60
          = Some (Inr (Some c))" by blast
  from reachable.step[OF r c] c show ?thesis by (auto simp: stuck_def handle_of_def)
qed


section \<open>The cursors\<close>

text \<open>
  Claim C2: after a successful initialisation and any sequence of calls of
  \<open>cache_t_set\<close> (a call of \<open>cache_t_get\<close> does not change the cache) the cursors
  satisfy \<open>hsize \<le> writer \<le> oldest \<le> unused \<le> size\<close>, \<open>oldest = unused\<close> implies
  \<open>unused = size\<close>, and \<open>hsize\<close> is a power of two between 4 and \<open>size/16\<close>; and
  every further call of \<open>cache_t_set\<close> that returns, whatever its arguments, the clock
  and the allocator are, ends without a fault in a cache whose cursors satisfy the same.
\<close>

theorem set_sequence_keeps_cursor_inv:
  assumes "reachable c"
  shows "cursor_inv c
       \<and> (\<forall>envs key data ttl r. cache_t_set envs (Some c) key data ttl = Some r
            \<longrightarrow> (\<exists>c'. r = Inr (Some c') \<and> cursor_inv c'))"
proof -
  from assms have inv: "cache_inv c" by (rule reachable_inv)
  then have "cursor_inv c" by (rule cache_invD)
  moreover have "\<exists>c'. r = Inr (Some c') \<and> cursor_inv c'"
    if "cache_t_set envs (Some c) key data ttl = Some r" for envs key data ttl r
  proof -
    from cache_t_set_inv[OF that inv] obtain c' where "r = Inr (Some c')" "cache_inv c'" by blast
    moreover from this(2) have "cursor_inv c'" by (rule cache_invD)
    ultimately show ?thesis by blast
  qed
  ultimately show ?thesis by blast
qed

theorem set_sequence_keeps_cursor_inv_witness:
  "cursor_inv c128
   \<and> (\<exists>c'. cache_t_set (clock_at 7) (Some c128) [107] [118] 60 = Some (Inr (Some c'))
          \<and> cursor_inv c')"
proof -
  have r: "reachable c128" using init_128 by (rule reachable.fresh)
  have "resize_callback (options c128) = None \<or> heap_env (clock_at 7 0) \<noteq> None"
    "length [107 :: byte] \<le> 1000" "length [118 :: byte] \<le> 1000000"
    by (simp_all add: c128_def)
  from cache_t_set_post[where envs = "clock_at 7" and ttl = 60, OF reachable_inv[OF r] this(2,3,1)]
  obtain c' where
    "cache_t_set (clock_at 7) (Some c128) [107] [118] 60 = Some (Inr (Some c'))" by auto
  with set_sequence_keeps_cursor_inv[OF r] show ?thesis by blast
qed

section \<open>Insertion followed by lookup\<close>

text \<open>The time to live that \<open>cache_t_get\<close> reports while the entry has not expired.\<close>

lemma remaining_exact:
  assumes "unat t + unat ttl < 2 ^ 64" "ttl \<le> 604800"
    and "unat t \<le> unat now" "unat now \<le> unat t + unat ttl"
  shows "\<not> tai_less (tai_add (tai_uint ttl) t) now"
    and "unat (remaining (tai_add (tai_uint ttl) t) now) + (unat now - unat t) = unat ttl"
proof -
  have u: "unat (ucast ttl :: tai) = unat ttl"
  proof -
    have "unat ttl < 2 ^ 32" using unsigned_less[of ttl, where 'a = nat] by simp
    then have "unat ttl < 2 ^ 64" by (rule less_trans) simp
    then show ?thesis by (simp add: unsigned_ucast_eq take_bit_nat_eq_self)
  qed
  have e: "unat (ucast ttl + t :: tai) = unat ttl + unat t"
    using assms(1) u unat_add_lem[of "ucast ttl :: tai" t] by simp
  show "\<not> tai_less (tai_add (tai_uint ttl) t) now"
    using e assms(4) by (simp add: tai_less_def tai_add_def tai_uint_def word_less_nat_alt)
  have le: "now \<le> ucast ttl + t" using e assms(4) by (simp add: word_le_nat_alt)
  have d: "unat (ucast ttl + t - now) = unat ttl + unat t - unat now"
    using le e by (simp add: unat_sub)
  have t6: "unat ttl \<le> 604800" using assms(2) by (simp add: word_le_nat_alt)
  have small: "unat ttl + unat t - unat now \<le> 604800" using t6 assms(3) by linarith
  have "remaining (tai_add (tai_uint ttl) t) now
      = (word_of_nat (unat ttl + unat t - unat now) :: uint32)"
    using d small
    by (simp add: remaining_def tai_add_def tai_uint_def tai_sub_def tai_approx_def)
  moreover have "unat (word_of_nat (unat ttl + unat t - unat now) :: uint32)
      = unat ttl + unat t - unat now"
    using small by (intro unat_of_nat32) simp
  ultimately show "unat (remaining (tai_add (tai_uint ttl) t) now) + (unat now - unat t)
      = unat ttl"
    using assms(3,4) by simp
qed


text \<open>
  Claim C1: for every cache and every valid input with
  \<open>20 + keylen + datalen \<le> size - hsize\<close>, \<open>cache_t_set\<close> followed immediately by
  \<open>cache_t_get\<close> returns the data that was written.  On the cache of 128 bytes
  (\<open>hsize = 8\<close>) an entry of 101 bytes is stored twice, four days apart: the sizer
  records a ratio of 1/4 at the second call.  The third call, another four days later,
  meets the condition of the claim (\<open>101 \<le> 128 - 8\<close>); the sizer shrinks the cache to
  100 bytes (\<open>hsize = 4\<close>), the entry no longer fits and is dropped, and the lookup that
  follows is a miss.
\<close>

theorem set_shrinks_cache_and_drops_entry:
  "map_option size_c shrink2 = Some 128 \<and> map_option hsize shrink2 = Some 8
   \<and> map_option (\<lambda>c. fits c [107] (replicate 80 118)) shrink2 = Some True
   \<and> map_option size_c shrink3 = Some 100 \<and> map_option hsize shrink3 = Some 4
   \<and> cache_t_get shrink3 [107] None (4611686018427387904 + 691203) = Inr None"
  by (simp add: shrink3_def shrink2_def shrink1_def model_defs clock_on_def env_on_def
      round_double_def normalise_unfold zero_heap_def fits_def)

text \<open>
  Claim C1, as amended.  Let the cache come from a successful initialisation and any
  number of calls of \<open>cache_t_set\<close>, let key, data and TTL be valid, let the clock show
  the second \<open>t\<close> during the call, and let no callback be installed or the allocation
  of a resize succeed.  Then \<open>cache_t_set\<close> returns.  The arena keeps its size when
  the sizer cannot decide to resize.  If the entry fits the arena as the call leaves it,
  every lookup of the key at a second from \<open>t\<close> to \<open>t + ttl\<close> returns the data that
  was written, its length, and as remaining TTL \<open>ttl\<close> less the seconds that have
  passed since \<open>t\<close>: a value in \<open>[ttl - 1, ttl]\<close> when at most one second has passed.
\<close>

theorem set_then_get_returns_entry:
  assumes "reachable c"
    and "length key \<le> 1000" "length data \<le> 1000000" "ttl \<le> 604800"
    and "resize_callback (options c) = None \<or> heap_env (envs 0) \<noteq> None"
    and "\<forall>i. tai_now (envs i) = t" and "unat t + unat ttl < 2 ^ 64"
  shows "\<exists>c'. cache_t_set envs (Some c) key data ttl = Some (Inr (Some c'))
          \<and> (quiet c \<longrightarrow> size_c c' = size_c c \<and> hsize c' = hsize c)
          \<and> (fits c' key data \<longrightarrow>
               (\<forall>stamp now. unat t \<le> unat now \<and> unat now \<le> unat t + unat ttl \<longrightarrow>
                  (\<exists>left. cache_t_get (Some c') key stamp now
                             = Inr (Some (data, word_of_nat (length data), left))
                        \<and> unat left + (unat now - unat t) = unat ttl)))"
proof -
  from assms(1) have inv: "cache_inv c" by (rule reachable_inv)
  have ttl1: "(if ttl > 604800 then 604800 else ttl) = ttl" using assms(4) by auto
  from set_then_get[where envs = envs and ttl = ttl, OF inv assms(2,3,5,6)] obtain c' where
    s: "cache_t_set envs (Some c) key data ttl = Some (Inr (Some c'))"
    and g: "\<And>stamp now. cache_t_get (Some c') key stamp now =
                Inr (if fits c' key data \<and> \<not> tai_less (tai_add (tai_uint ttl) t) now
                     then Some (data, word_of_nat (length data),
                          remaining (tai_add (tai_uint ttl) t) now)
                     else None)"
    unfolding ttl1 by blast
  have "size_c c' = size_c c \<and> hsize c' = hsize c" if "quiet c"
    using cache_t_set_quiet_size[OF inv assms(2,3) that s] .
  moreover have "\<exists>left. cache_t_get (Some c') key stamp now
                             = Inr (Some (data, word_of_nat (length data), left))
                        \<and> unat left + (unat now - unat t) = unat ttl"
    if "fits c' key data" "unat t \<le> unat now" "unat now \<le> unat t + unat ttl" for stamp now
    using g[of stamp now] that(1) remaining_exact[OF assms(7,4) that(2,3)] by simp
  ultimately show ?thesis using s by blast
qed

theorem set_then_get_returns_entry_witness:
  "\<exists>c' left. cache_t_set (clock_at 4611686018427388914) (Some c128) [107] [118] 60
                 = Some (Inr (Some c'))
      \<and> size_c c' = 128 \<and> hsize c' = 8
      \<and> cache_t_get (Some c') [107] None 4611686018427388915 = Inr (Some ([118], 1, left))
      \<and> unat left = 59"
proof -
  have r: "reachable c128" using init_128 by (rule reachable.fresh)
  have q: "quiet c128" by (simp add: quiet_def c128_def zero_cache_def)
  have h: "length [107 :: byte] \<le> 1000" "length [118 :: byte] \<le> 1000000"
    "(60 :: uint32) \<le> 604800"
    "resize_callback (options c128) = None \<or> heap_env (clock_at 4611686018427388914 0) \<noteq> None"
    "\<forall>i. tai_now (clock_at 4611686018427388914 i) = 4611686018427388914"
    "unat (4611686018427388914 :: tai) + unat (60 :: uint32) < 2 ^ 64"
    by (simp_all add: c128_def clock_at_def env_at_def)
  from set_then_get_returns_entry[where envs = "clock_at 4611686018427388914", OF r h]
  obtain c' where
    s: "cache_t_set (clock_at 4611686018427388914) (Some c128) [107] [118] 60
          = Some (Inr (Some c'))"
    and sz: "quiet c128 \<longrightarrow> size_c c' = size_c c128 \<and> hsize c' = hsize c128"
    and g: "fits c' [107] [118] \<longrightarrow>
               (\<forall>stamp now. unat (4611686018427388914 :: tai) \<le> unat now
                    \<and> unat now \<le> unat (4611686018427388914 :: tai) + unat (60 :: uint32) \<longrightarrow>
                  (\<exists>left. cache_t_get (Some c') [107] stamp now
                             = Inr (Some ([118], word_of_nat (length [118 :: byte]), left))
                        \<and> unat left + (unat now - unat (4611686018427388914 :: tai))
                            = unat (60 :: uint32)))"
    by blast
  from sz q have sz': "size_c c' = 128" "hsize c' = 8" by (simp_all add: c128_def)
  then have "fits c' [107] [118]" by (simp add: fits_def)
  with g have every: "\<exists>left. cache_t_get (Some c') [107] stamp now
                             = Inr (Some ([118], word_of_nat (length [118 :: byte]), left))
                        \<and> unat left + (unat now - unat (4611686018427388914 :: tai))
                            = unat (60 :: uint32)"
    if "unat (4611686018427388914 :: tai) \<le> unat now"
       "unat now \<le> unat (4611686018427388914 :: tai) + unat (60 :: uint32)" for stamp now
    using that by blast
  have "\<exists>left. cache_t_get (Some c') [107] None 4611686018427388915
                             = Inr (Some ([118], word_of_nat (length [118 :: byte]), left))
                        \<and> unat left + (unat (4611686018427388915 :: tai)
                              - unat (4611686018427388914 :: tai)) = unat (60 :: uint32)"
    by (rule every) simp_all
  then obtain left where
    "cache_t_get (Some c') [107] None 4611686018427388915 = Inr (Some ([118], 1, left))"
    "unat left = 59" by auto
  with s sz' show ?thesis by blast
qed

text \<open>
  Claim C4: after \<open>cache_t_set\<close> with a TTL of 0 at the second \<open>t\<close>, every lookup of
  the key at a second greater than or equal to \<open>t\<close> is a miss.  \<open>cache_t_get\<close>
  gives up an entry only when \<open>tai_less (expire, now)\<close>, and here \<open>expire = t\<close>: a
  lookup during the second \<open>t\<close> itself is a hit, with a remaining TTL of 0.
\<close>

theorem zero_ttl_hit_in_same_second:
  "cache_t_get
     (handle_of (cache_t_set (clock_at 4611686018427388914) (Some c128) [107] [118] 0))
     [107] None 4611686018427388914 = Inr (Some ([118], 1, 0))"
  by (simp add: model_defs)

text \<open>
  Claim C4, as amended.  Let the cache come from a successful initialisation and any
  number of calls of \<open>cache_t_set\<close>, let key and data be valid, let the clock show the
  second \<open>t\<close> during the call, and let no callback be installed or the allocation of a
  resize succeed.  Then \<open>cache_t_set\<close> with a TTL of 0 returns, every lookup of the key
  at a second later than \<open>t\<close> is a miss, and a lookup at the second \<open>t\<close> is a hit with
  a remaining TTL of 0 if the entry fits the arena, and a miss if not.
\<close>

theorem zero_ttl_miss_after_the_second:
  assumes "reachable c"
    and "length key \<le> 1000" "length data \<le> 1000000"
    and "resize_callback (options c) = None \<or> heap_env (envs 0) \<noteq> None"
    and "\<forall>i. tai_now (envs i) = t"
  shows "\<exists>c'. cache_t_set envs (Some c) key data 0 = Some (Inr (Some c'))
          \<and> (\<forall>stamp now. t < now \<longrightarrow> cache_t_get (Some c') key stamp now = Inr None)
          \<and> (\<forall>stamp. cache_t_get (Some c') key stamp t =
                Inr (if fits c' key data then Some (data, word_of_nat (length data), 0)
                     else None))"
proof -
  from assms(1) have inv: "cache_inv c" by (rule reachable_inv)
  have e: "tai_add (tai_uint (if (0 :: uint32) > 604800 then 604800 else 0)) t = t"
    by (simp add: tai_add_def tai_uint_def)
  from set_then_get[where envs = envs and ttl = 0, OF inv assms(2-5)] obtain c' where
    s: "cache_t_set envs (Some c) key data 0 = Some (Inr (Some c'))"
    and g: "\<And>stamp now. cache_t_get (Some c') key stamp now =
                Inr (if fits c' key data \<and> \<not> tai_less t now
                     then Some (data, word_of_nat (length data), remaining t now)
                     else None)"
    unfolding e by blast
  have "cache_t_get (Some c') key stamp now = Inr None" if "t < now" for stamp now
    using g[of stamp now] that by (simp add: tai_less_def)
  moreover have "cache_t_get (Some c') key stamp t =
                Inr (if fits c' key data then Some (data, word_of_nat (length data), 0)
                     else None)" for stamp
    using g[of stamp t] by (simp add: tai_less_def remaining_def tai_sub_def tai_approx_def)
  ultimately show ?thesis using s by blast
qed

theorem zero_ttl_miss_after_the_second_witness:
  "\<exists>c'. cache_t_set (clock_at 4611686018427388914) (Some c128) [107] [118] 0
           = Some (Inr (Some c'))
      \<and> cache_t_get (Some c') [107] None 4611686018427388915 = Inr None"
proof -
  have r: "reachable c128" using init_128 by (rule reachable.fresh)
  have h: "length [107 :: byte] \<le> 1000" "length [118 :: byte] \<le> 1000000"
    "resize_callback (options c128) = None \<or> heap_env (clock_at 4611686018427388914 0) \<noteq> None"
    "\<forall>i. tai_now (clock_at 4611686018427388914 i) = 4611686018427388914"
    by (simp_all add: c128_def clock_at_def env_at_def)
  from zero_ttl_miss_after_the_second[where envs = "clock_at 4611686018427388914", OF r h]
  obtain c' where
    s: "cache_t_set (clock_at 4611686018427388914) (Some c128) [107] [118] 0
          = Some (Inr (Some c'))"
    and g: "\<forall>stamp now. (4611686018427388914 :: tai) < now
              \<longrightarrow> cache_t_get (Some c') [107] stamp now = Inr None"
    by blast
  have "(4611686018427388914 :: tai) < 4611686018427388915" by simp
  with g have "cache_t_get (Some c') [107] None 4611686018427388915 = Inr None" by blast
  with s show ?thesis by blast
qed




section \<open>The flood guard\<close>




end
